theory Spec2Isabelle
  imports Complex_Main
begin

section \<open>Errors and strings\<close>

text \<open>
  The Python exceptions the modelled functions can raise.  A \<open>ValueError\<close> and a
  \<open>TypeError\<close> carry their message.  Every fallible function returns \<open>error + 'a\<close>, with
  \<open>Inl\<close> for the raise.
\<close>

datatype error =
    ValueError string
  | TypeError string
  | AssertionError
  | IndexError
  | ZeroDivisionError

text \<open>
  \<open>str.lower()\<close> on the ASCII range: the letters \<open>A\<close>..\<open>Z\<close> (codes 65..90) move to
  \<open>a\<close>..\<open>z\<close>, every other character stays.
\<close>

definition lower_char :: "char \<Rightarrow> char" where
  "lower_char c =
     (let n = (of_char c :: nat) in if 65 \<le> n \<and> n \<le> 90 then char_of (n + 32) else c)"

definition lower :: "string \<Rightarrow> string" where
  "lower s = map lower_char s"

definition not_supported :: "string \<Rightarrow> error" where
  "not_supported sampling =
     ValueError (''Sampling scheme sampling='' @ sampling @ '' not supported'')"

section \<open>Sample geometry of the rotation group (s2fft/wigner/samples.py)\<close>

definition flmn_shape :: "int \<Rightarrow> int \<Rightarrow> int \<times> int \<times> int" where
  "flmn_shape L N = (L, 2 * L - 1, 2 * N - 1)"

definition flmn_shape_1d :: "int \<Rightarrow> int \<Rightarrow> int" where
  "flmn_shape_1d L N = (2 * N - 1) * L * L"

text \<open>\<open>_nalpha\<close>, \<open>_nbeta\<close> and \<open>_ngamma\<close> of the source (an identifier cannot start with
  an underscore here).\<close>

definition nalpha :: "int \<Rightarrow> string \<Rightarrow> error + int" where
  "nalpha L sampling =
     (if lower sampling \<in> set [''mw'', ''dh''] then Inr (2 * L - 1)
      else if lower sampling = ''mwss'' then Inr (2 * L)
      else Inl (not_supported sampling))"

definition nbeta :: "int \<Rightarrow> string \<Rightarrow> error + int" where
  "nbeta L sampling =
     (if lower sampling = ''mw'' then Inr L
      else if lower sampling = ''mwss'' then Inr (L + 1)
      else if lower sampling = ''dh'' then Inr (2 * L)
      else Inl (not_supported sampling))"

definition ngamma :: "int \<Rightarrow> int" where
  "ngamma N = 2 * N - 1"

text \<open>The tuple is built left to right: \<open>_nbeta\<close>, then \<open>_nalpha\<close>, then \<open>_ngamma\<close>.\<close>

definition f_shape :: "int \<Rightarrow> int \<Rightarrow> string \<Rightarrow> error + (int \<times> int \<times> int)" where
  "f_shape L N sampling =
     (if sampling \<in> set [''mw'', ''mwss'', ''dh''] then
        (case nbeta L sampling of
           Inl e \<Rightarrow> Inl e
         | Inr nb \<Rightarrow>
             (case nalpha L sampling of
                Inl e \<Rightarrow> Inl e
              | Inr na \<Rightarrow> Inr (nb, na, ngamma N)))
      else Inl (not_supported sampling))"

definition elmn2ind :: "int \<Rightarrow> int \<Rightarrow> int \<Rightarrow> int \<Rightarrow> int \<Rightarrow> int" where
  "elmn2ind el m n L N =
     (let n_offset = (N - 1 + n) * L * L; el_offset = el * el
      in n_offset + el_offset + el + m)"

section \<open>HEALPix spectral folding and periodic extension (s2fft/healpix\_ffts.py)\<close>

text \<open>
  Python slicing and indexing on a one-dimensional array of length \<open>len\<close>.  A slice bound
  is clipped into \<open>0..len\<close> (a negative bound counts from the end); an index out of range
  raises \<open>IndexError\<close> (a negative index counts from the end).
\<close>

definition norm_slice :: "nat \<Rightarrow> int \<Rightarrow> nat" where
  "norm_slice len a = (if a < 0 then nat (max 0 (a + int len)) else nat (min a (int len)))"

definition py_index :: "nat \<Rightarrow> int \<Rightarrow> error + nat" where
  "py_index len i =
     (let j = (if i < 0 then i + int len else i)
      in if 0 \<le> j \<and> j < int len then Inr (nat j) else Inl IndexError)"

text \<open>
  \<open>ftm_slice = fm[slice_start:slice_stop]\<close> is a numpy view: it shares the buffer of
  \<open>fm\<close>.  The model keeps the one buffer \<open>fm\<close> and describes the view by its offset
  \<open>vs\<close> and its length \<open>vl\<close>; a store into \<open>ftm_slice[k]\<close> is a store into cell
  \<open>vs + k\<close> of \<open>fm\<close>.

  First loop of \<open>spectral_folding\<close>:
  \<^verbatim>\<open>while slice_start - idx >= 0:
      ftm_slice[-idx % nphi] += fm[slice_start - idx]; idx += 1\<close>
\<close>

function fold_lower :: "complex list \<Rightarrow> int \<Rightarrow> int \<Rightarrow> nat \<Rightarrow> nat \<Rightarrow> int \<Rightarrow> error + complex list" where
  "fold_lower fm slice_start nphi vs vl idx =
     (if slice_start - idx \<ge> 0 then
        (if nphi = 0 then Inl ZeroDivisionError
         else case py_index vl ((- idx) mod nphi) of
             Inl e \<Rightarrow> Inl e
           | Inr k \<Rightarrow>
               (case py_index (length fm) (slice_start - idx) of
                  Inl e \<Rightarrow> Inl e
                | Inr r \<Rightarrow>
                    fold_lower (fm[vs + k := fm ! (vs + k) + fm ! r])
                      slice_start nphi vs vl (idx + 1)))
      else Inr fm)"
  by pat_completeness auto
termination
  by (relation "measure (\<lambda>(fm, slice_start, nphi, vs, vl, idx). nat (slice_start - idx + 1))") auto

text \<open>
  Second loop:
  \<^verbatim>\<open>while slice_stop + idx < len(fm):
      ftm_slice[idx % nphi] += fm[slice_stop + idx]; idx += 1\<close>
\<close>

function fold_upper :: "complex list \<Rightarrow> int \<Rightarrow> int \<Rightarrow> nat \<Rightarrow> nat \<Rightarrow> int \<Rightarrow> error + complex list" where
  "fold_upper fm slice_stop nphi vs vl idx =
     (if slice_stop + idx < int (length fm) then
        (if nphi = 0 then Inl ZeroDivisionError
         else case py_index vl (idx mod nphi) of
             Inl e \<Rightarrow> Inl e
           | Inr k \<Rightarrow>
               (case py_index (length fm) (slice_stop + idx) of
                  Inl e \<Rightarrow> Inl e
                | Inr r \<Rightarrow>
                    fold_upper (fm[vs + k := fm ! (vs + k) + fm ! r])
                      slice_stop nphi vs vl (idx + 1)))
      else Inr fm)"
  by pat_completeness auto
termination
  by (relation "measure (\<lambda>(fm, slice_stop, nphi, vs, vl, idx). nat (int (length fm) - slice_stop - idx))") auto

text \<open>
  \<open>spectral_folding\<close> returns the caller's buffer as the loops left it, together with the
  offset and length of the view it hands back; \<open>view_of\<close> reads the returned array.
\<close>

definition view_of :: "'a list \<Rightarrow> nat \<Rightarrow> nat \<Rightarrow> 'a list" where
  "view_of buf vs vl = take vl (drop vs buf)"

definition spectral_folding :: "complex list \<Rightarrow> int \<Rightarrow> int \<Rightarrow> error + (complex list \<times> nat \<times> nat)" where
  "spectral_folding fm nphi L =
     (if \<not> nphi \<le> 2 * L then Inl AssertionError
      else
        let slice_start = L - nphi div 2;
            slice_stop = slice_start + nphi;
            vs = norm_slice (length fm) slice_start;
            ve = max vs (norm_slice (length fm) slice_stop);
            vl = ve - vs
        in case fold_lower fm slice_start nphi vs vl 1 of
             Inl e \<Rightarrow> Inl e
           | Inr fm1 \<Rightarrow>
               (case fold_upper fm1 slice_stop nphi vs vl 0 of
                  Inl e \<Rightarrow> Inl e
                | Inr fm2 \<Rightarrow> Inr (fm2, vs, vl)))"

text \<open>
  \<open>spectral_periodic_extension\<close> allocates a fresh array of \<open>2 * L\<close> zeros
  (\<open>np.zeros\<close> rejects a negative size), copies \<open>fm\<close> into the window (numpy accepts a
  source of the window's length, or of length one, which it broadcasts) and fills the
  cells below and above the window from \<open>fm\<close>, reading it modulo \<open>nphi\<close>.
\<close>

function extend_lower :: "complex list \<Rightarrow> complex list \<Rightarrow> int \<Rightarrow> int \<Rightarrow> int \<Rightarrow> error + complex list" where
  "extend_lower fm_full fm slice_start nphi idx =
     (if slice_start - idx \<ge> 0 then
        (if nphi = 0 then Inl ZeroDivisionError
         else case py_index (length fm) ((- idx) mod nphi) of
             Inl e \<Rightarrow> Inl e
           | Inr k \<Rightarrow>
               (case py_index (length fm_full) (slice_start - idx) of
                  Inl e \<Rightarrow> Inl e
                | Inr r \<Rightarrow> extend_lower (fm_full[r := fm ! k]) fm slice_start nphi (idx + 1)))
      else Inr fm_full)"
  by pat_completeness auto
termination
  by (relation "measure (\<lambda>(fm_full, fm, slice_start, nphi, idx). nat (slice_start - idx + 1))") auto

function extend_upper :: "complex list \<Rightarrow> complex list \<Rightarrow> int \<Rightarrow> int \<Rightarrow> int \<Rightarrow> error + complex list" where
  "extend_upper fm_full fm slice_stop nphi idx =
     (if slice_stop + idx < int (length fm_full) then
        (if nphi = 0 then Inl ZeroDivisionError
         else case py_index (length fm) (idx mod nphi) of
             Inl e \<Rightarrow> Inl e
           | Inr k \<Rightarrow>
               (case py_index (length fm_full) (slice_stop + idx) of
                  Inl e \<Rightarrow> Inl e
                | Inr r \<Rightarrow> extend_upper (fm_full[r := fm ! k]) fm slice_stop nphi (idx + 1)))
      else Inr fm_full)"
  by pat_completeness auto
termination
  by (relation "measure (\<lambda>(fm_full, fm, slice_stop, nphi, idx). nat (int (length fm_full) - slice_stop - idx))") auto

definition spectral_periodic_extension :: "complex list \<Rightarrow> int \<Rightarrow> int \<Rightarrow> error + complex list" where
  "spectral_periodic_extension fm nphi L =
     (if \<not> nphi \<le> 2 * L then Inl AssertionError
      else
        let slice_start = L - nphi div 2;
            slice_stop = slice_start + nphi
        in if 2 * L < 0 then Inl (ValueError ''negative dimensions are not allowed'')
           else
             let zeros = replicate (nat (2 * L)) (0 :: complex);
                 vs = norm_slice (length zeros) slice_start;
                 ve = max vs (norm_slice (length zeros) slice_stop);
                 vl = ve - vs
             in if length fm \<noteq> vl \<and> length fm \<noteq> 1
                then Inl (ValueError ''could not broadcast input array'')
                else
                  let src = (if length fm = vl then fm else replicate vl (fm ! 0));
                      fm_full = take vs zeros @ src @ drop ve zeros
                  in case extend_lower fm_full fm slice_start nphi 1 of
                       Inl e \<Rightarrow> Inl e
                     | Inr fm_full1 \<Rightarrow> extend_upper fm_full1 fm slice_stop nphi 0)"


text \<open>
  Specification functions for the loops of \<open>spectral_folding\<close>: the sum of the cells of
  \<open>fm\<close> at positions \<open>p\<close> (up to \<open>h\<close>, from \<open>lo\<close>, or anywhere outside the window
  \<open>s..s+nphi-1\<close>) whose offset from the window start \<open>s\<close> is \<open>j\<close> modulo \<open>nphi\<close>;
  and the number of the \<open>2 * L\<close> cells of the extended array that fall on \<open>j\<close>.
\<close>

definition alias_below :: "complex list \<Rightarrow> int \<Rightarrow> int \<Rightarrow> int \<Rightarrow> nat \<Rightarrow> complex" where
  "alias_below fm s nphi h j =
     (\<Sum>p = 0..<length fm. if int p \<le> h \<and> (int p - s) mod nphi = int j then fm ! p else 0)"

definition alias_above :: "complex list \<Rightarrow> int \<Rightarrow> int \<Rightarrow> int \<Rightarrow> nat \<Rightarrow> complex" where
  "alias_above fm s nphi lo j =
     (\<Sum>p = 0..<length fm. if lo \<le> int p \<and> (int p - s) mod nphi = int j then fm ! p else 0)"

definition aliased :: "complex list \<Rightarrow> int \<Rightarrow> int \<Rightarrow> nat \<Rightarrow> complex" where
  "aliased fm s nphi j =
     (\<Sum>p = 0..<length fm.
        if (int p < s \<or> s + nphi \<le> int p) \<and> (int p - s) mod nphi = int j then fm ! p else 0)"

definition multiplicity :: "int \<Rightarrow> int \<Rightarrow> nat \<Rightarrow> nat" where
  "multiplicity L nphi j =
     length (filter (\<lambda>p. (int p - (L - nphi div 2)) mod nphi = int j) [0..<nat (2 * L)])"

declare fold_lower.simps [simp del] fold_upper.simps [simp del]
  extend_lower.simps [simp del] extend_upper.simps [simp del]


section \<open>Arrays and the FFT routines of numpy\<close>

text \<open>
  A two- or three-dimensional numpy array is a list of rows (of planes of rows); numpy
  arrays are rectangular, which \<open>rect2\<close> and \<open>rect3\<close> say.  The shape is read off the first
  row, so arrays with an axis of length zero are identified when they differ only in the
  axes behind it.
\<close>

type_synonym arr2 = "complex list list"
type_synonym arr3 = "complex list list list"

definition shape2 :: "'a list list \<Rightarrow> int \<times> int" where
  "shape2 a = (int (length a), (if a = [] then 0 else int (length (hd a))))"

definition shape3 :: "'a list list list \<Rightarrow> int \<times> int \<times> int" where
  "shape3 a =
     (int (length a),
      (if a = [] then 0 else int (length (hd a))),
      (if a = [] \<or> hd a = [] then 0 else int (length (hd (hd a)))))"

definition rect2 :: "'a list list \<Rightarrow> bool" where
  "rect2 a = list_all (\<lambda>r. length r = length (hd a)) a"

definition rect3 :: "'a list list list \<Rightarrow> bool" where
  "rect3 a =
     list_all (\<lambda>p. length p = length (hd a) \<and>
                    list_all (\<lambda>r. length r = length (hd (hd a))) p) a"

text \<open>\<open>np.zeros\<close> raises \<open>ValueError\<close> on a negative dimension.\<close>

definition negative_dimensions :: error where
  "negative_dimensions = ValueError ''negative dimensions are not allowed''"

definition zeros1 :: "int \<Rightarrow> error + 'a :: zero list" where
  "zeros1 n = (if n < 0 then Inl negative_dimensions else Inr (replicate (nat n) 0))"

definition zeros2 :: "int \<times> int \<Rightarrow> error + 'a :: zero list list" where
  "zeros2 sh =
     (case sh of (a, b) \<Rightarrow>
        if a < 0 \<or> b < 0 then Inl negative_dimensions
        else Inr (replicate (nat a) (replicate (nat b) 0)))"

definition zeros3 :: "int \<times> int \<times> int \<Rightarrow> error + 'a :: zero list list list" where
  "zeros3 sh =
     (case sh of (a, b, c) \<Rightarrow>
        if a < 0 \<or> b < 0 \<or> c < 0 then Inl negative_dimensions
        else Inr (replicate (nat a) (replicate (nat b) (replicate (nat c) 0))))"

text \<open>
  \<open>a[..., k]\<close> and \<open>a[..., k] = m\<close> on a three-dimensional array: the index \<open>k\<close> runs over
  the last axis.  The store needs \<open>m\<close> to have the shape of the first two axes; numpy
  would also broadcast a value of lower rank, which no caller here passes, so any other
  shape is the \<open>ValueError\<close> numpy raises on shapes that do not match.
\<close>

definition could_not_broadcast :: error where
  "could_not_broadcast = ValueError ''could not broadcast input array''"

definition last_axis_len :: "'a list list list \<Rightarrow> nat" where
  "last_axis_len a = nat (snd (snd (shape3 a)))"

definition get_last :: "'a list list list \<Rightarrow> int \<Rightarrow> error + 'a list list" where
  "get_last a k =
     (case py_index (last_axis_len a) k of
        Inl e \<Rightarrow> Inl e
      | Inr q \<Rightarrow> Inr (map (map (\<lambda>r. r ! q)) a))"

definition set_last :: "'a list list list \<Rightarrow> int \<Rightarrow> 'a list list \<Rightarrow> error + 'a list list list" where
  "set_last a k m =
     (case py_index (last_axis_len a) k of
        Inl e \<Rightarrow> Inl e
      | Inr q \<Rightarrow>
          if shape2 m = (fst (shape3 a), fst (snd (shape3 a))) \<and> rect2 m
          then Inr (map2 (\<lambda>p mp. map2 (\<lambda>r v. r[q := v]) p mp) a m)
          else Inl could_not_broadcast)"

text \<open>
  The discrete Fourier transform of numpy in exact arithmetic: \<open>dft sg xs\<close> is the
  unnormalised sum with the sign \<open>sg\<close> in the exponent.  \<open>fft\<close> with \<open>norm="backward"\<close> and
  \<open>ifft\<close> with \<open>norm="forward"\<close> are unnormalised, \<open>ifft\<close> with \<open>norm="backward"\<close> divides by
  the length.  Every routine raises \<open>ValueError\<close> on an axis of length zero.
\<close>

definition dft :: "real \<Rightarrow> complex list \<Rightarrow> complex list" where
  "dft sg xs =
     (let n = length xs
      in map (\<lambda>j. \<Sum>k = 0..<n. xs ! k * cis (sg * 2 * pi * real j * real k / real n)) [0..<n])"

definition invalid_fft_points :: error where
  "invalid_fft_points = ValueError ''Invalid number of FFT data points (0) specified.''"

definition fft_backward :: "complex list \<Rightarrow> error + complex list" where
  "fft_backward xs = (if xs = [] then Inl invalid_fft_points else Inr (dft (- 1) xs))"

definition ifft_forward :: "complex list \<Rightarrow> error + complex list" where
  "ifft_forward xs = (if xs = [] then Inl invalid_fft_points else Inr (dft 1 xs))"

definition ifft_backward :: "complex list \<Rightarrow> error + complex list" where
  "ifft_backward xs =
     (if xs = [] then Inl invalid_fft_points
      else Inr (map (\<lambda>z. z / of_nat (length xs)) (dft 1 xs)))"

text \<open>\<open>fftshift\<close> rolls the array by \<open>n // 2\<close> to the right, \<open>ifftshift\<close> by \<open>n // 2\<close> to the
  left.\<close>

definition fftshift :: "'a list \<Rightarrow> 'a list" where
  "fftshift xs = rotate (length xs - length xs div 2) xs"

definition ifftshift :: "'a list \<Rightarrow> 'a list" where
  "ifftshift xs = rotate (length xs div 2) xs"

text \<open>
  \<open>rfft\<close> (with \<open>norm="backward"\<close>) of a real signal keeps the first \<open>n // 2 + 1\<close>
  coefficients.  \<open>irfft(a, n)\<close> (with \<open>norm="forward"\<close>) crops or zero-pads \<open>a\<close> to
  \<open>n // 2 + 1\<close> coefficients and returns the real signal of length \<open>n\<close> whose spectrum is
  the Hermitian extension of \<open>a\<close>; the imaginary parts of \<open>a[0]\<close> and, for even \<open>n\<close>, of
  \<open>a[n // 2]\<close> are not read.
\<close>

definition rfft_backward :: "real list \<Rightarrow> error + complex list" where
  "rfft_backward xs =
     (if xs = [] then Inl invalid_fft_points
      else Inr (take (length xs div 2 + 1) (dft (- 1) (map complex_of_real xs))))"

definition irfft_forward :: "complex list \<Rightarrow> int \<Rightarrow> error + real list" where
  "irfft_forward a n =
     (if n < 1 then Inl invalid_fft_points
      else
        let m = nat n div 2 + 1;
            b = take m a @ replicate (m - length a) 0
        in Inr (map (\<lambda>j. Re (b ! 0)
                      + (\<Sum>k = 1..<(nat n + 1) div 2.
                           2 * Re (b ! k * cis (2 * pi * real j * real k / real (nat n))))
                      + (if even n then Re (b ! (nat n div 2)) * (- 1) ^ j else 0))
                  [0..<nat n]))"

text \<open>Running a fallible routine over every element of a list, stopping at the first
  error.\<close>

fun map_err :: "('a \<Rightarrow> error + 'b) \<Rightarrow> 'a list \<Rightarrow> error + 'b list" where
  "map_err f [] = Inr []"
| "map_err f (x # xs) =
     (case f x of
        Inl e \<Rightarrow> Inl e
      | Inr y \<Rightarrow> (case map_err f xs of Inl e \<Rightarrow> Inl e | Inr ys \<Rightarrow> Inr (y # ys)))"

text \<open>\<open>(-1) ** n\<close> for a Python integer \<open>n\<close> of either sign.\<close>

definition neg_one_pow :: "int \<Rightarrow> complex" where
  "neg_one_pow n = (if even n then 1 else - 1)"


section \<open>The Wigner transform (s2fft/wigner/transform.py)\<close>

text \<open>
  The spin-spherical transforms \<open>s2fft.transform.inverse\<close> and \<open>s2fft.transform.forward\<close>
  are not part of the sources at hand; the Wigner transform takes them as parameters.
  Their arguments are, in this order, the array, \<open>L\<close>, \<open>spin\<close>, \<open>sampling\<close>, \<open>reality\<close>,
  \<open>L_lower\<close> and \<open>nside\<close>; they may raise.
\<close>

record sph_transform =
  sph_inverse :: "arr2 \<Rightarrow> int \<Rightarrow> int \<Rightarrow> string \<Rightarrow> bool \<Rightarrow> int \<Rightarrow> int option \<Rightarrow> error + arr2"
  sph_forward :: "arr2 \<Rightarrow> int \<Rightarrow> int \<Rightarrow> string \<Rightarrow> bool \<Rightarrow> int \<Rightarrow> int option \<Rightarrow> error + arr2"

text \<open>\<open>np.einsum("ijk,i->ijk", a, v)\<close> with \<open>v[i] = c i\<close>: plane \<open>i\<close> is scaled by \<open>c i\<close>.\<close>

definition scale_planes :: "(nat \<Rightarrow> real) \<Rightarrow> arr3 \<Rightarrow> arr3" where
  "scale_planes c a =
     map2 (\<lambda>i plane. map (map (\<lambda>x. x * complex_of_real (c i))) plane) [0..<length a] a"

text \<open>
  The loop of \<open>inverse\<close> over the orders \<open>n\<close>:
  \<^verbatim>\<open>fban[..., N - 1 + n] = (-1) ** n * s2fft.transform.inverse(
      flmn_scaled[..., N - 1 + n], L, spin=-n, ...)\<close>
\<close>

fun inverse_loop ::
  "sph_transform \<Rightarrow> arr3 \<Rightarrow> int \<Rightarrow> int \<Rightarrow> int \<Rightarrow> string \<Rightarrow> bool \<Rightarrow> int option \<Rightarrow> arr3 \<Rightarrow> int list
     \<Rightarrow> error + arr3" where
  "inverse_loop T flmn_scaled L N L_lower sampling reality nside fban [] = Inr fban"
| "inverse_loop T flmn_scaled L N L_lower sampling reality nside fban (n # ns) =
     (case get_last flmn_scaled (N - 1 + n) of
        Inl e \<Rightarrow> Inl e
      | Inr flm \<Rightarrow>
          (case sph_inverse T flm L (- n) sampling reality L_lower nside of
             Inl e \<Rightarrow> Inl e
           | Inr f \<Rightarrow>
               (case set_last fban (N - 1 + n) (map (map (\<lambda>x. neg_one_pow n * x)) f) of
                  Inl e \<Rightarrow> Inl e
                | Inr fban' \<Rightarrow>
                    inverse_loop T flmn_scaled L N L_lower sampling reality nside fban' ns)))"

text \<open>
  Both \<open>inverse\<close> and \<open>forward\<close> call \<open>s2fft.wigner.samples.f_shape(L, N, sampling, nside)\<close>
  with four positional arguments, and \<open>f_shape\<close> is declared with the three parameters
  \<open>L\<close>, \<open>N\<close> and \<open>sampling\<close>.  Python checks the number of arguments before it runs the
  body of the function, so this call raises \<open>TypeError\<close> whatever the arguments are.
\<close>

definition f_shape_nside :: "int \<Rightarrow> int \<Rightarrow> string \<Rightarrow> int option \<Rightarrow> error + (int \<times> int \<times> int)" where
  "f_shape_nside L N sampling nside =
     Inl (TypeError ''f_shape() takes from 2 to 3 positional arguments but 4 were given'')"

text \<open>
  \<open>inverse\<close> of the source: the assertion on the shape of \<open>flmn\<close>, the call of \<open>f_shape\<close>, and
  the statements behind it as they are written.  The FFT over \<open>\<gamma>\<close> is written along the
  last axis (\<open>axis=-1\<close>).
\<close>

definition wigner_inverse ::
  "sph_transform \<Rightarrow> arr3 \<Rightarrow> int \<Rightarrow> int \<Rightarrow> int \<Rightarrow> string \<Rightarrow> bool \<Rightarrow> int option \<Rightarrow> error + arr3" where
  "wigner_inverse T flmn L N L_lower sampling reality nside =
     (if shape3 flmn \<noteq> flmn_shape L N then Inl AssertionError
      else case f_shape_nside L N sampling nside of
          Inl e \<Rightarrow> Inl e
        | Inr sh \<Rightarrow>
            (case zeros3 sh of
               Inl e \<Rightarrow> Inl e
             | Inr fban0 \<Rightarrow>
                 let flmn_scaled = scale_planes (\<lambda>i. sqrt ((2 * real i + 1) / (16 * pi ^ 3))) flmn;
                     n_start_ind = (if reality then 0 else - N + 1)
                 in case inverse_loop T flmn_scaled L N L_lower sampling reality nside fban0
                           [n_start_ind..N - 1] of
                      Inl e \<Rightarrow> Inl e
                    | Inr fban \<Rightarrow>
                        if reality then
                          map_err (map_err (\<lambda>r.
                            case irfft_forward (drop (norm_slice (length r) (N - 1)) r) (2 * N - 1) of
                              Inl e \<Rightarrow> Inl e
                            | Inr xs \<Rightarrow> Inr (map complex_of_real xs))) fban
                        else map_err (map_err (\<lambda>r. ifft_forward (ifftshift r))) fban))"

text \<open>
  The loop of \<open>forward\<close>:
  \<^verbatim>\<open>flmn[..., N - 1 + n] = (-1) ** n * s2fft.transform.forward(
      fban[..., n - n_start_ind], L, spin=-n, ...)
  if reality and n != 0:
      flmn[..., N - 1 - n] = np.conj(
          np.flip(flmn[..., N - 1 + n] * sgn * (-1) ** n, axis=1))\<close>
  The rows of \<open>flmn\<close> and \<open>sgn\<close> both have \<open>2 * L - 1\<close> entries, so the product with \<open>sgn\<close> is
  entry by entry along the \<open>m\<close> axis; \<open>np.flip(..., axis=1)\<close> reverses that axis.
\<close>

fun forward_loop ::
  "sph_transform \<Rightarrow> arr3 \<Rightarrow> int \<Rightarrow> int \<Rightarrow> int \<Rightarrow> string \<Rightarrow> bool \<Rightarrow> int option \<Rightarrow> complex list \<Rightarrow> int
     \<Rightarrow> arr3 \<Rightarrow> int list \<Rightarrow> error + arr3" where
  "forward_loop T fban L N L_lower sampling reality nside sgns n_start_ind flmn [] = Inr flmn"
| "forward_loop T fban L N L_lower sampling reality nside sgns n_start_ind flmn (n # ns) =
     (case get_last fban (n - n_start_ind) of
        Inl e \<Rightarrow> Inl e
      | Inr fb \<Rightarrow>
          (case sph_forward T fb L (- n) sampling reality L_lower nside of
             Inl e \<Rightarrow> Inl e
           | Inr flm \<Rightarrow>
               (case set_last flmn (N - 1 + n) (map (map (\<lambda>x. neg_one_pow n * x)) flm) of
                  Inl e \<Rightarrow> Inl e
                | Inr flmn1 \<Rightarrow>
                    if reality \<and> n \<noteq> 0 then
                      (case get_last flmn1 (N - 1 + n) of
                         Inl e \<Rightarrow> Inl e
                       | Inr s \<Rightarrow>
                           (case set_last flmn1 (N - 1 - n)
                                   (map (\<lambda>r. map cnj (rev (map2 (\<lambda>x sg. x * sg * neg_one_pow n) r sgns))) s) of
                              Inl e \<Rightarrow> Inl e
                            | Inr flmn2 \<Rightarrow>
                                forward_loop T fban L N L_lower sampling reality nside sgns
                                  n_start_ind flmn2 ns))
                    else forward_loop T fban L N L_lower sampling reality nside sgns
                           n_start_ind flmn1 ns)))"

text \<open>
  \<open>forward\<close> of the source.  The call of \<open>f_shape\<close> is evaluated inside the \<open>assert\<close>, before
  the shapes are compared.
\<close>

definition wigner_forward ::
  "sph_transform \<Rightarrow> arr3 \<Rightarrow> int \<Rightarrow> int \<Rightarrow> int \<Rightarrow> string \<Rightarrow> bool \<Rightarrow> int option \<Rightarrow> error + arr3" where
  "wigner_forward T f L N L_lower sampling reality nside =
     (case f_shape_nside L N sampling nside of
        Inl e \<Rightarrow> Inl e
      | Inr sh \<Rightarrow>
          if shape3 f \<noteq> sh then Inl AssertionError
          else case zeros3 (flmn_shape L N) of
              Inl e \<Rightarrow> Inl e
            | Inr flmn0 \<Rightarrow>
                (case (if reality then map_err (map_err (\<lambda>r. rfft_backward (map Re r))) f
                       else map_err (map_err (\<lambda>r.
                              case fft_backward r of Inl e \<Rightarrow> Inl e | Inr y \<Rightarrow> Inr (fftshift y))) f) of
                   Inl e \<Rightarrow> Inl e
                 | Inr fban0 \<Rightarrow>
                     let fban = map (map (map (\<lambda>x. x * complex_of_real (2 * pi / real_of_int (2 * N - 1))))) fban0;
                         sgns = map (\<lambda>j. neg_one_pow (abs j)) [- L + 1..L - 1];
                         n_start_ind = (if reality then 0 else - N + 1)
                     in case forward_loop T fban L N L_lower sampling reality nside sgns n_start_ind
                               flmn0 [n_start_ind..N - 1] of
                          Inl e \<Rightarrow> Inl e
                        | Inr flmn \<Rightarrow>
                            Inr (scale_planes (\<lambda>i. sqrt (4 * pi / (2 * real i + 1))) flmn)))"


section \<open>Precomputed kernels (s2fft/precompute\_transforms/construct.py)\<close>

text \<open>
  \<open>spin_spherical_kernel\<close> calls four functions that are not part of the sources at hand:
  \<open>samples.thetas(L, sampling, nside)\<close>, \<open>recursions.turok.compute_slice(theta, el, L, mm,
  reality)\<close>, \<open>quadrature.quad_weights_transform(L, sampling, spin, nside)\<close> and
  \<open>samples.ring_phase_shift_hp(L, t, nside, forward)\<close>.  The model takes them as parameters;
  each may raise.
\<close>

record kernel_env =
  thetas :: "int \<Rightarrow> string \<Rightarrow> int option \<Rightarrow> error + real list"
  compute_slice :: "real \<Rightarrow> int \<Rightarrow> int \<Rightarrow> int \<Rightarrow> bool \<Rightarrow> error + real list"
  quad_weights_transform :: "int \<Rightarrow> string \<Rightarrow> int \<Rightarrow> int option \<Rightarrow> error + real list"
  ring_phase_shift_hp :: "int \<Rightarrow> int \<Rightarrow> int option \<Rightarrow> bool \<Rightarrow> error + complex list"

text \<open>The kernel is an array of floats, or of complex numbers once the HEALPix phase
  shifts have been multiplied in.\<close>

datatype kernel = RealKernel "real list list list" | ComplexKernel "complex list list list"

definition reality_warning :: string where
  "reality_warning =
     ''Reality acceleration only supports spin 0 fields. '' @ ''Defering to complex transform.''"

text \<open>
  The inner loop over the degrees \<open>el\<close> for one ring \<open>t\<close> with angle \<open>theta\<close>:
  \<^verbatim>\<open>dl[t, el] = recursions.turok.compute_slice(theta, el, L, -spin, reality)[m_start_ind:]
  dl[t, el] *= np.sqrt((2 * el + 1) / (4 * np.pi))\<close>
  The row \<open>dl[t, el]\<close> has \<open>m_dim\<close> entries; the store takes a slice of that length or of
  length one.  \<open>el\<close> runs over \<open>range(abs(spin), L)\<close>, so it is a valid index of the
  second axis.
\<close>

fun kernel_degrees ::
  "kernel_env \<Rightarrow> int \<Rightarrow> int \<Rightarrow> bool \<Rightarrow> int \<Rightarrow> nat \<Rightarrow> real \<Rightarrow> real list list \<Rightarrow> int list
     \<Rightarrow> error + real list list" where
  "kernel_degrees E L spin reality m_start_ind m_dim theta plane [] = Inr plane"
| "kernel_degrees E L spin reality m_start_ind m_dim theta plane (el # els) =
     (case compute_slice E theta el L (- spin) reality of
        Inl e \<Rightarrow> Inl e
      | Inr sl \<Rightarrow>
          let row = drop (norm_slice (length sl) m_start_ind) sl
          in if length row \<noteq> m_dim \<and> length row \<noteq> 1 then Inl could_not_broadcast
             else
               let row' = (if length row = m_dim then row else replicate m_dim (row ! 0));
                   scaled = map (\<lambda>x. x * sqrt ((2 * real_of_int el + 1) / (4 * pi))) row'
               in kernel_degrees E L spin reality m_start_ind m_dim theta
                    (plane[nat el := scaled]) els)"

text \<open>The outer loop \<open>for t, theta in enumerate(thetas)\<close>, over the planes of \<open>dl\<close>.\<close>

fun kernel_rings ::
  "kernel_env \<Rightarrow> int \<Rightarrow> int \<Rightarrow> bool \<Rightarrow> int \<Rightarrow> nat \<Rightarrow> real list list list \<Rightarrow> (nat \<times> real) list
     \<Rightarrow> error + real list list list" where
  "kernel_rings E L spin reality m_start_ind m_dim dl [] = Inr dl"
| "kernel_rings E L spin reality m_start_ind m_dim dl ((t, theta) # rest) =
     (case kernel_degrees E L spin reality m_start_ind m_dim theta (dl ! t) [\<bar>spin\<bar>..L - 1] of
        Inl e \<Rightarrow> Inl e
      | Inr plane \<Rightarrow> kernel_rings E L spin reality m_start_ind m_dim (dl[t := plane]) rest)"

text \<open>
  \<open>healpix_phase_shifts(L, nside, forward)\<close>: one row of \<open>2 * L - 1\<close> phases for each ring of
  the HEALPix grid.
\<close>

definition healpix_phase_shifts :: "kernel_env \<Rightarrow> int \<Rightarrow> int option \<Rightarrow> bool \<Rightarrow> error + complex list list" where
  "healpix_phase_shifts E L nside forward =
     (case thetas E L ''healpix'' nside of
        Inl e \<Rightarrow> Inl e
      | Inr ths \<Rightarrow>
          if 2 * L - 1 < 0 then Inl negative_dimensions
          else map_err (\<lambda>t.
                 case ring_phase_shift_hp E L (int t) nside forward of
                   Inl e \<Rightarrow> Inl e
                 | Inr ph \<Rightarrow>
                     if length ph = nat (2 * L - 1) then Inr ph
                     else if length ph = 1 then Inr (replicate (nat (2 * L - 1)) (ph ! 0))
                     else Inl could_not_broadcast) [0..<length ths])"

definition operands_mismatch :: error where
  "operands_mismatch = ValueError ''operands could not be broadcast together''"

text \<open>
  The body of \<open>spin_spherical_kernel\<close> below the test on \<open>reality\<close> and \<open>spin\<close>; \<open>reality\<close> is
  the flag as that test left it.
\<close>

definition kernel_body ::
  "kernel_env \<Rightarrow> int \<Rightarrow> int \<Rightarrow> bool \<Rightarrow> string \<Rightarrow> int option \<Rightarrow> bool \<Rightarrow> error + kernel" where
  "kernel_body E L spin reality sampling nside forward =
     (let m_start_ind = (if reality then L - 1 else 0);
          m_dim = (if reality then L else 2 * L - 1);
          mw_forward = (forward \<and> lower sampling \<in> set [''mw'', ''mwss'']);
          sampling1 = (if mw_forward then ''mwss'' else sampling)
      in case (if mw_forward then thetas E (2 * L) ''mwss'' None else thetas E L sampling nside) of
           Inl e \<Rightarrow> Inl e
         | Inr ths \<Rightarrow>
             (case zeros3 (int (length ths), L, m_dim) of
                Inl e \<Rightarrow> Inl e
              | Inr z \<Rightarrow>
                  (case kernel_rings E L spin reality m_start_ind (nat m_dim) z
                          (zip [0..<length ths] ths) of
                     Inl e \<Rightarrow> Inl e
                   | Inr dl \<Rightarrow>
                       (case (if forward then
                                (case quad_weights_transform E L sampling1 0 nside of
                                   Inl e \<Rightarrow> Inl e
                                 | Inr w \<Rightarrow>
                                     if length w \<noteq> length dl then Inl operands_mismatch
                                     else Inr (map2 (\<lambda>plane wt. map (map (\<lambda>x. x * wt)) plane) dl w))
                              else Inr dl) of
                          Inl e \<Rightarrow> Inl e
                        | Inr dl1 \<Rightarrow>
                            if lower sampling1 = ''healpix'' then
                              (case healpix_phase_shifts E L nside forward of
                                 Inl e \<Rightarrow> Inl e
                               | Inr ph \<Rightarrow>
                                   let ph1 = map (\<lambda>r. drop (norm_slice (length r) m_start_ind) r) ph
                                   in if length ph1 \<noteq> length dl1 \<or>
                                         \<not> list_all (\<lambda>r. length r = nat m_dim) ph1
                                      then Inl operands_mismatch
                                      else Inr (ComplexKernel
                                             (map2 (\<lambda>plane pr.
                                                map (\<lambda>row. map2 (\<lambda>x p. complex_of_real x * p) row pr) plane)
                                                dl1 ph1)))
                            else Inr (RealKernel dl1)))))"

text \<open>
  \<open>spin_spherical_kernel\<close> returns the warnings it has issued together with its result.
  \<^verbatim>\<open>if reality and spin != 0:
      reality = False
      warn("Reality acceleration only supports spin 0 fields. " + "Defering to complex transform.")\<close>
\<close>

definition spin_spherical_kernel ::
  "kernel_env \<Rightarrow> int \<Rightarrow> int \<Rightarrow> bool \<Rightarrow> string \<Rightarrow> int option \<Rightarrow> bool \<Rightarrow> string list \<times> (error + kernel)" where
  "spin_spherical_kernel E L spin reality sampling nside forward =
     (if reality \<and> spin \<noteq> 0
      then ([reality_warning], kernel_body E L spin False sampling nside forward)
      else ([], kernel_body E L spin reality sampling nside forward))"

text \<open>The length of the \<open>m\<close> axis of a kernel: every row has that many entries.\<close>

definition kernel_m_dim :: "kernel \<Rightarrow> nat \<Rightarrow> bool" where
  "kernel_m_dim k d =
     (case k of
        RealKernel a \<Rightarrow> list_all (list_all (\<lambda>row. length row = d)) a
      | ComplexKernel a \<Rightarrow> list_all (list_all (\<lambda>row. length row = d)) a)"


section \<open>The HEALPix FFTs (s2fft/healpix\_ffts.py)\<close>

text \<open>
  \<open>healpix_fft\<close> and \<open>healpix_ifft\<close> read the geometry of the HEALPix grid from
  \<open>s2fft.samples\<close>, which is not part of the sources at hand: \<open>ftm_shape(L, "healpix",
  nside)\<close>, \<open>nphi_ring(t, nside)\<close> and \<open>f_shape(sampling="healpix", nside=nside)\<close> (the
  number of pixels).  The model takes them as parameters.
\<close>

record hp_samples =
  ftm_shape :: "int \<Rightarrow> int \<Rightarrow> int \<times> int"
  nphi_ring :: "int \<Rightarrow> int \<Rightarrow> int"
  hp_f_shape :: "int \<Rightarrow> int"

text \<open>
  \<open>a[start:stop]\<close> read, and \<open>a[start:stop] = vals\<close> stored, on a one-dimensional array;
  the store takes a source of the length of the slice, or of length one.
\<close>

definition slice_of :: "'a list \<Rightarrow> int \<Rightarrow> int \<Rightarrow> 'a list" where
  "slice_of a start stop =
     (let vs = norm_slice (length a) start;
          ve = max vs (norm_slice (length a) stop)
      in take (ve - vs) (drop vs a))"

definition assign_slice :: "'a list \<Rightarrow> int \<Rightarrow> int \<Rightarrow> 'a list \<Rightarrow> error + 'a list" where
  "assign_slice a start stop vals =
     (let vs = norm_slice (length a) start;
          ve = max vs (norm_slice (length a) stop);
          vl = ve - vs
      in if length vals = vl then Inr (take vs a @ vals @ drop ve a)
         else if length vals = 1 then Inr (take vs a @ replicate vl (vals ! 0) @ drop ve a)
         else Inl could_not_broadcast)"

text \<open>\<open>ftm[t] = row\<close> on a two-dimensional array, for a valid row index \<open>t\<close>.\<close>

definition assign_row :: "'a list list \<Rightarrow> nat \<Rightarrow> 'a list \<Rightarrow> error + 'a list list" where
  "assign_row a t row =
     (if length row = length (a ! t) then Inr (a[t := row])
      else if length row = 1 then Inr (a[t := replicate (length (a ! t)) (row ! 0)])
      else Inl could_not_broadcast)"

text \<open>
  The block of \<open>healpix_fft\<close> that runs when \<open>reality\<close> holds and the ring has \<open>2 * L\<close>
  samples.  It builds \<open>fm_chunk\<close> from the real FFT; the statement after it assigns
  \<open>fm_chunk\<close> afresh, so only an exception of this block can reach the caller.
  \<^verbatim>\<open>fm_chunk = np.zeros(nphi, dtype=np.complex128)
  fm_chunk[nphi // 2 :] = fft.rfft(np.real(f[index : index + nphi]), norm="backward")[:-1]\<close>
\<close>

definition rfft_chunk :: "complex list \<Rightarrow> int \<Rightarrow> int \<Rightarrow> error + complex list" where
  "rfft_chunk f index nphi =
     (case zeros1 nphi of
        Inl e \<Rightarrow> Inl e
      | Inr fm_chunk \<Rightarrow>
          (case rfft_backward (map Re (slice_of f index (index + nphi))) of
             Inl e \<Rightarrow> Inl e
           | Inr r \<Rightarrow> assign_slice fm_chunk (nphi div 2) (int (length fm_chunk)) (butlast r)))"

text \<open>The loop of \<open>healpix_fft\<close> over the rings, with the state \<open>ftm\<close> and \<open>index\<close>.\<close>

fun healpix_fft_rings ::
  "hp_samples \<Rightarrow> complex list \<Rightarrow> int \<Rightarrow> int \<Rightarrow> bool \<Rightarrow> arr2 \<Rightarrow> int \<Rightarrow> nat list \<Rightarrow> error + arr2" where
  "healpix_fft_rings S f L nside reality ftm index [] = Inr ftm"
| "healpix_fft_rings S f L nside reality ftm index (t # ts) =
     (let nphi = nphi_ring S (int t) nside
      in case (if reality \<and> nphi = 2 * L then rfft_chunk f index nphi else Inr []) of
           Inl e \<Rightarrow> Inl e
         | Inr unused \<Rightarrow>
             (case fft_backward (slice_of f index (index + nphi)) of
                Inl e \<Rightarrow> Inl e
              | Inr y \<Rightarrow>
                  (case (if nphi = 2 * L then Inr (fftshift y)
                         else spectral_periodic_extension (fftshift y) nphi L) of
                     Inl e \<Rightarrow> Inl e
                   | Inr row \<Rightarrow>
                       (case assign_row ftm t row of
                          Inl e \<Rightarrow> Inl e
                        | Inr ftm1 \<Rightarrow>
                            healpix_fft_rings S f L nside reality ftm1 (index + nphi) ts))))"

definition healpix_fft :: "hp_samples \<Rightarrow> complex list \<Rightarrow> int \<Rightarrow> int \<Rightarrow> bool \<Rightarrow> error + arr2" where
  "healpix_fft S f L nside reality =
     (if \<not> L \<ge> 2 * nside then Inl AssertionError
      else case zeros2 (ftm_shape S L nside) of
          Inl e \<Rightarrow> Inl e
        | Inr ftm \<Rightarrow> healpix_fft_rings S f L nside reality ftm 0 [0..<length ftm])"

text \<open>
  The loop of \<open>healpix_ifft\<close>.  \<open>ftm[t]\<close> is a view of row \<open>t\<close> of the caller's array, and
  \<open>spectral_folding\<close> works in that row: the state of the loop holds the caller's \<open>ftm\<close>
  beside \<open>f\<close> and \<open>index\<close>, and the function returns it with \<open>f\<close>.
\<close>

fun healpix_ifft_rings ::
  "hp_samples \<Rightarrow> int \<Rightarrow> int \<Rightarrow> bool \<Rightarrow> arr2 \<Rightarrow> complex list \<Rightarrow> int \<Rightarrow> nat list
     \<Rightarrow> error + (arr2 \<times> complex list)" where
  "healpix_ifft_rings S L nside reality ftm f index [] = Inr (ftm, f)"
| "healpix_ifft_rings S L nside reality ftm f index (t # ts) =
     (let nphi = nphi_ring S (int t) nside
      in case (if nphi = 2 * L then Inr (ftm, ftm ! t)
               else case spectral_folding (ftm ! t) nphi L of
                   Inl e \<Rightarrow> Inl e
                 | Inr (buf, vs, vl) \<Rightarrow> Inr (ftm[t := buf], view_of buf vs vl)) of
           Inl e \<Rightarrow> Inl e
         | Inr (ftm1, fm_chunk) \<Rightarrow>
             (case (if reality \<and> nphi = 2 * L then
                      (case irfft_forward (slice_of fm_chunk (nphi div 2) (int (length fm_chunk))) nphi of
                         Inl e \<Rightarrow> Inl e
                       | Inr xs \<Rightarrow> Inr (map complex_of_real xs))
                    else ifft_forward (ifftshift fm_chunk)) of
                Inl e \<Rightarrow> Inl e
              | Inr vals \<Rightarrow>
                  (case assign_slice f index (index + nphi) vals of
                     Inl e \<Rightarrow> Inl e
                   | Inr f1 \<Rightarrow>
                       healpix_ifft_rings S L nside reality ftm1 f1 (index + nphi) ts)))"

definition healpix_ifft ::
  "hp_samples \<Rightarrow> arr2 \<Rightarrow> int \<Rightarrow> int \<Rightarrow> bool \<Rightarrow> error + (arr2 \<times> complex list)" where
  "healpix_ifft S ftm L nside reality =
     (if \<not> L \<ge> 2 * nside then Inl AssertionError
      else case zeros1 (hp_f_shape S nside) of
          Inl e \<Rightarrow> Inl e
        | Inr f \<Rightarrow> healpix_ifft_rings S L nside reality ftm f 0 [0..<length ftm])"


section \<open>Packing of the Wigner coefficients (s2fft/wigner/samples.py)\<close>

text \<open>
  The argument of \<open>flmn_3d_to_1d\<close> and \<open>flmn_1d_to_3d\<close> is an array of one, two or three
  dimensions; both functions look at the number of dimensions first.  (Arrays of other
  ranks are not represented.)
\<close>

datatype ndarray = Arr1 "complex list" | Arr2 arr2 | Arr3 arr3

text \<open>Decimal digits of a natural number and the tuple \<open>(r, c)\<close> of a two-dimensional
  shape, as Python's f-strings print them.\<close>

function show_nat :: "nat \<Rightarrow> string" where
  "show_nat n =
     (if n < 10 then [char_of (48 + n)] else show_nat (n div 10) @ [char_of (48 + n mod 10)])"
  by pat_completeness auto
termination
  by (relation "measure id") auto

declare show_nat.simps [simp del]

definition show_shape2 :: "'a list list \<Rightarrow> string" where
  "show_shape2 a =
     ''('' @ show_nat (nat (fst (shape2 a))) @ '', '' @ show_nat (nat (snd (shape2 a))) @ '')''"

text \<open>\<open>a[i, j, k]\<close> read and stored on a three-dimensional array, each index checked
  against its axis.\<close>

definition get3 :: "'a list list list \<Rightarrow> int \<Rightarrow> int \<Rightarrow> int \<Rightarrow> error + 'a" where
  "get3 a i j k =
     (case shape3 a of (d0, d1, d2) \<Rightarrow>
        (case py_index (nat d0) i of
           Inl e \<Rightarrow> Inl e
         | Inr i' \<Rightarrow>
             (case py_index (nat d1) j of
                Inl e \<Rightarrow> Inl e
              | Inr j' \<Rightarrow>
                  (case py_index (nat d2) k of
                     Inl e \<Rightarrow> Inl e
                   | Inr k' \<Rightarrow> Inr (a ! i' ! j' ! k')))))"

definition set3 :: "'a list list list \<Rightarrow> int \<Rightarrow> int \<Rightarrow> int \<Rightarrow> 'a \<Rightarrow> error + 'a list list list" where
  "set3 a i j k v =
     (case shape3 a of (d0, d1, d2) \<Rightarrow>
        (case py_index (nat d0) i of
           Inl e \<Rightarrow> Inl e
         | Inr i' \<Rightarrow>
             (case py_index (nat d1) j of
                Inl e \<Rightarrow> Inl e
              | Inr j' \<Rightarrow>
                  (case py_index (nat d2) k of
                     Inl e \<Rightarrow> Inl e
                   | Inr k' \<Rightarrow> Inr (a[i' := (a ! i')[j' := (a ! i' ! j')[k' := v]]])))))"

text \<open>
  The three nested loops of both functions visit the triples \<open>(n, el, m)\<close> in this order:
  \<^verbatim>\<open>for n in range(-N + 1, N):
      for el in range(L):
          for m in range(-el, el + 1):\<close>
\<close>

definition loop_indices :: "int \<Rightarrow> int \<Rightarrow> (int \<times> int \<times> int) list" where
  "loop_indices L N =
     concat (map (\<lambda>n. concat (map (\<lambda>el. map (\<lambda>m. (n, el, m)) [- el..el]) [0..L - 1]))
       [- N + 1..N - 1])"

text \<open>The body \<open>flmn_1d[elmn2ind(el, m, n, L, N)] = flmn_3d[el, L - 1 + m, N - 1 + n]\<close>, run
  over the triples.\<close>

fun to_1d_loop :: "arr3 \<Rightarrow> int \<Rightarrow> int \<Rightarrow> complex list \<Rightarrow> (int \<times> int \<times> int) list \<Rightarrow> error + complex list" where
  "to_1d_loop flmn_3d L N flmn_1d [] = Inr flmn_1d"
| "to_1d_loop flmn_3d L N flmn_1d ((n, el, m) # ts) =
     (case get3 flmn_3d el (L - 1 + m) (N - 1 + n) of
        Inl e \<Rightarrow> Inl e
      | Inr v \<Rightarrow>
          (case py_index (length flmn_1d) (elmn2ind el m n L N) of
             Inl e \<Rightarrow> Inl e
           | Inr q \<Rightarrow> to_1d_loop flmn_3d L N (flmn_1d[q := v]) ts))"

definition flmn_3d_to_1d :: "ndarray \<Rightarrow> int \<Rightarrow> int \<Rightarrow> error + complex list" where
  "flmn_3d_to_1d flmn_3d L N =
     (case zeros1 (flmn_shape_1d L N) of
        Inl e \<Rightarrow> Inl e
      | Inr flmn_1d \<Rightarrow>
          (case flmn_3d of
             Arr1 a \<Rightarrow> Inl (ValueError ''flmn is already 1D indexed'')
           | Arr2 a \<Rightarrow>
               Inl (ValueError (''Cannot convert flmn of dimension '' @ show_shape2 a @ '' to 1D indexing''))
           | Arr3 a \<Rightarrow> to_1d_loop a L N flmn_1d (loop_indices L N)))"

text \<open>The body \<open>flmn_3d[el, L - 1 + m, N - 1 + n] = flmn_1d[elmn2ind(el, m, n, L, N)]\<close>.\<close>

fun to_3d_loop :: "complex list \<Rightarrow> int \<Rightarrow> int \<Rightarrow> arr3 \<Rightarrow> (int \<times> int \<times> int) list \<Rightarrow> error + arr3" where
  "to_3d_loop flmn_1d L N flmn_3d [] = Inr flmn_3d"
| "to_3d_loop flmn_1d L N flmn_3d ((n, el, m) # ts) =
     (case py_index (length flmn_1d) (elmn2ind el m n L N) of
        Inl e \<Rightarrow> Inl e
      | Inr q \<Rightarrow>
          (case set3 flmn_3d el (L - 1 + m) (N - 1 + n) (flmn_1d ! q) of
             Inl e \<Rightarrow> Inl e
           | Inr flmn_3d' \<Rightarrow> to_3d_loop flmn_1d L N flmn_3d' ts))"

definition flmn_1d_to_3d :: "ndarray \<Rightarrow> int \<Rightarrow> int \<Rightarrow> error + arr3" where
  "flmn_1d_to_3d flmn_1d L N =
     (case zeros3 (flmn_shape L N) of
        Inl e \<Rightarrow> Inl e
      | Inr flmn_3d \<Rightarrow>
          (case flmn_1d of
             Arr3 a \<Rightarrow> Inl (ValueError ''Flmn is already 3D indexed'')
           | Arr2 a \<Rightarrow>
               Inl (ValueError (''Cannot convert flmn of dimension '' @ show_shape2 a @ '' to 3D indexing''))
           | Arr1 a \<Rightarrow> to_3d_loop a L N flmn_3d (loop_indices L N)))"

text \<open>\<open>valid_triple L N (n, el, m)\<close>: the triple is one the loops visit.\<close>

definition valid_triple :: "int \<Rightarrow> int \<Rightarrow> int \<times> int \<times> int \<Rightarrow> bool" where
  "valid_triple L N t =
     (case t of (n, el, m) \<Rightarrow>
        - N + 1 \<le> n \<and> n \<le> N - 1 \<and> 0 \<le> el \<and> el \<le> L - 1 \<and> - el \<le> m \<and> m \<le> el)"

text \<open>\<open>in_support L x\<close>: the array \<open>x\<close> of shape \<open>(L, 2L-1, 2N-1)\<close> is zero at every position
  whose order \<open>m = j - (L - 1)\<close> exceeds the degree \<open>l = i\<close> in absolute value.\<close>

definition in_support :: "int \<Rightarrow> arr3 \<Rightarrow> bool" where
  "in_support L x =
     (\<forall>i<length x. \<forall>j<length (x ! i). \<forall>k<length (x ! i ! j).
        int i < \<bar>int j - (L - 1)\<bar> \<longrightarrow> x ! i ! j ! k = 0)"

section \<open>Periodic extension in \<open>\<theta>\<close> (s2fft/general\_precompute/resampling\_jax.py)\<close>

text \<open>
  \<open>periodic_extension\<close> reads three sample counts from \<open>s2fft.samples\<close>, which is not part
  of the sources at hand: \<open>ntheta(L, sampling)\<close>, \<open>nphi_equiang(L, sampling)\<close> and
  \<open>ntheta_extension(L, sampling)\<close>.  The model takes them as parameters; each may raise.
\<close>

record eq_samples =
  ntheta :: "int \<Rightarrow> string \<Rightarrow> error + int"
  nphi_equiang :: "int \<Rightarrow> string \<Rightarrow> error + int"
  ntheta_extension :: "int \<Rightarrow> string \<Rightarrow> error + int"

text \<open>
  \<open>a[r0:r1, c0:c1]\<close> read, and \<open>a.at[r0:r1, c0:c1].set(v)\<close>, on a two-dimensional array.
  The store takes a value whose axes have the lengths of the region or the length one;
  it returns the updated copy.
\<close>

definition block_of :: "'a list list \<Rightarrow> int \<Rightarrow> int \<Rightarrow> int \<Rightarrow> int \<Rightarrow> 'a list list" where
  "block_of a r0 r1 c0 c1 = map (\<lambda>r. slice_of r c0 c1) (slice_of a r0 r1)"

definition broadcast_to :: "nat \<Rightarrow> 'a list \<Rightarrow> error + 'a list" where
  "broadcast_to n v =
     (if length v = n then Inr v
      else if length v = 1 then Inr (replicate n (v ! 0))
      else Inl could_not_broadcast)"

definition set_block :: "'a list list \<Rightarrow> int \<Rightarrow> int \<Rightarrow> int \<Rightarrow> int \<Rightarrow> 'a list list \<Rightarrow> error + 'a list list" where
  "set_block a r0 r1 c0 c1 v =
     (let rs = norm_slice (length a) r0;
          re = max rs (norm_slice (length a) r1)
      in case broadcast_to (re - rs) v of
           Inl e \<Rightarrow> Inl e
         | Inr vr \<Rightarrow>
             (case map_err (\<lambda>(r, w). assign_slice r c0 c1 w) (zip (take (re - rs) (drop rs a)) vr) of
                Inl e \<Rightarrow> Inl e
              | Inr rows \<Rightarrow> Inr (take rs a @ rows @ drop re a)))"

text \<open>The product \<open>a * s\<close> of a two-dimensional array and a vector, which numpy broadcasts
  along the last axis.\<close>

definition mul_last :: "arr2 \<Rightarrow> complex list \<Rightarrow> error + arr2" where
  "mul_last a s =
     map_err (\<lambda>r. if length r = length s then Inr (map2 (*) r s)
                   else if length s = 1 then Inr (map (\<lambda>x. x * s ! 0) r)
                   else if length r = 1 then Inr (map (\<lambda>y. r ! 0 * y) s)
                   else Inl operands_mismatch) a"

text \<open>\<open>fft(a, axis=1, norm="backward")\<close> and \<open>ifft(a, axis=1, norm="backward")\<close> on an array
  with \<open>ncols\<close> columns.\<close>

definition fft_axis1 :: "nat \<Rightarrow> arr2 \<Rightarrow> error + arr2" where
  "fft_axis1 ncols a = (if ncols = 0 then Inl invalid_fft_points else map_err fft_backward a)"

definition ifft_axis1 :: "nat \<Rightarrow> arr2 \<Rightarrow> error + arr2" where
  "ifft_axis1 ncols a = (if ncols = 0 then Inl invalid_fft_points else map_err ifft_backward a)"

text \<open>
  \<^verbatim>\<open>f_ext = jnp.zeros((ntheta_ext, nphi), dtype=jnp.complex128)
  f_ext = f_ext.at[0:ntheta, 0:nphi].set(f[0:ntheta, 0:nphi])
  f_ext = jnp.fft.fftshift(jnp.fft.fft(f_ext, axis=1, norm="backward"), axes=1)
  f_ext = f_ext.at[L + m_offset : 2 * L - 1 + m_offset, m_offset : 2 * L - 1 + m_offset].set(
      jnp.flip(f_ext[m_offset : L - 1 + m_offset, m_offset : 2 * L - 1 + m_offset], axis=0)
      * (-1) ** (jnp.arange(-(L - 1), L) + spin))
  return jnp.fft.ifft(jnp.fft.ifftshift(f_ext, axes=1), axis=1, norm="backward")\<close>
  The signs \<open>(-1) ** (m + spin)\<close> are \<open>1\<close> for an even and \<open>-1\<close> for an odd exponent.
\<close>

definition periodic_extension :: "eq_samples \<Rightarrow> arr2 \<Rightarrow> int \<Rightarrow> int \<Rightarrow> string \<Rightarrow> error + arr2" where
  "periodic_extension S f L spin sampling =
     (case ntheta S L sampling of
        Inl e \<Rightarrow> Inl e
      | Inr ntheta' \<Rightarrow>
     (case nphi_equiang S L sampling of
        Inl e \<Rightarrow> Inl e
      | Inr nphi \<Rightarrow>
     (case ntheta_extension S L sampling of
        Inl e \<Rightarrow> Inl e
      | Inr ntheta_ext \<Rightarrow>
     (let m_offset = (if sampling = ''mwss'' then 1 else 0)
      in case zeros2 (ntheta_ext, nphi) of
           Inl e \<Rightarrow> Inl e
         | Inr f_ext0 \<Rightarrow>
        (case set_block f_ext0 0 ntheta' 0 nphi (block_of f 0 ntheta' 0 nphi) of
           Inl e \<Rightarrow> Inl e
         | Inr f_ext1 \<Rightarrow>
        (case fft_axis1 (nat nphi) f_ext1 of
           Inl e \<Rightarrow> Inl e
         | Inr f_ext2 \<Rightarrow>
        (let f_ext3 = map fftshift f_ext2
         in case mul_last
                   (rev (block_of f_ext3 m_offset (L - 1 + m_offset) m_offset (2 * L - 1 + m_offset)))
                   (map (\<lambda>m. neg_one_pow (m + spin)) [- (L - 1)..L - 1]) of
              Inl e \<Rightarrow> Inl e
            | Inr v \<Rightarrow>
           (case set_block f_ext3 (L + m_offset) (2 * L - 1 + m_offset)
                   m_offset (2 * L - 1 + m_offset) v of
              Inl e \<Rightarrow> Inl e
            | Inr f_ext4 \<Rightarrow> ifft_axis1 (nat nphi) (map ifftshift f_ext4)))))))))"

text \<open>\<open>unextend\<close> keeps the first \<open>L\<close> rows for \<open>"mw"\<close> and the first \<open>L + 1\<close> rows for
  \<open>"mwss"\<close>, whatever the case of the letters, and raises on any other scheme.\<close>

definition unextend :: "'a list list \<Rightarrow> int \<Rightarrow> string \<Rightarrow> error + 'a list list" where
  "unextend f_ext L sampling =
     (if lower sampling = ''mw'' then Inr (slice_of f_ext 0 L)
      else if lower sampling = ''mwss'' then Inr (slice_of f_ext 0 (L + 1))
      else Inl (ValueError (''Only mw and mwss supported for periodic extension (not sampling=''
                              @ sampling @ '')'')))"


section \<open>Shapes\<close>

text \<open>\<open>has_shape3 a b c A\<close>: the array \<open>A\<close> has \<open>a\<close> planes of \<open>b\<close> rows of \<open>c\<close> entries.\<close>

definition has_shape2 :: "nat \<Rightarrow> nat \<Rightarrow> 'a list list \<Rightarrow> bool" where
  "has_shape2 a b A = (length A = a \<and> list_all (\<lambda>r. length r = b) A)"

definition has_shape3 :: "nat \<Rightarrow> nat \<Rightarrow> nat \<Rightarrow> 'a list list list \<Rightarrow> bool" where
  "has_shape3 a b c A = (length A = a \<and> list_all (has_shape2 b c) A)"

text \<open>\<open>conj_sym L N A n\<close>: the slices of \<open>A\<close> at the orders \<open>n\<close> and \<open>- n\<close> are related by
  conjugation, reversal of the \<open>m\<close> axis and the sign \<open>(-1) ^ (m + n)\<close>.\<close>

definition conj_sym :: "int \<Rightarrow> int \<Rightarrow> arr3 \<Rightarrow> int \<Rightarrow> bool" where
  "conj_sym L N A n =
     (\<forall>l m. 0 \<le> l \<and> l < L \<and> \<bar>m\<bar> \<le> L - 1 \<longrightarrow>
        A ! nat l ! nat (L - 1 - m) ! nat (N - 1 - n) =
        neg_one_pow (m + n) * cnj (A ! nat l ! nat (L - 1 + m) ! nat (N - 1 + n)))"

text \<open>
  \<open>hermitian_row L r\<close>: the row \<open>r\<close> of \<open>2 * L\<close> Fourier coefficients, stored for the orders
  \<open>m = - L, \<dots>, L - 1\<close> at the indices \<open>L + m\<close>, is conjugate symmetric: the coefficient at
  \<open>- m\<close> is the conjugate of the one at \<open>m\<close> for \<open>0 \<le> m < L\<close> (so the one at \<open>m = 0\<close> is
  real).  The order \<open>- L\<close> at index \<open>0\<close> has no partner in the row.
\<close>

definition hermitian_row :: "int \<Rightarrow> complex list \<Rightarrow> bool" where
  "hermitian_row L r =
     (length r = nat (2 * L) \<and> (\<forall>k<nat L. r ! (nat L - k) = cnj (r ! (nat L + k))))"


section \<open>The folding and extension loops\<close>

lemma alias_below_step:
  assumes "0 \<le> h" "h < int (length fm)"
  shows "alias_below fm s nphi h j =
         alias_below fm s nphi (h - 1) j + (if (h - s) mod nphi = int j then fm ! nat h else 0)"
proof -
  have "alias_below fm s nphi h j =
        (\<Sum>p = 0..<length fm. (if int p \<le> h - 1 \<and> (int p - s) mod nphi = int j then fm ! p else 0)
           + (if p = nat h then (if (h - s) mod nphi = int j then fm ! nat h else 0) else 0))"
    unfolding alias_below_def using assms by (intro sum.cong) auto
  also have "\<dots> = alias_below fm s nphi (h - 1) j + (if (h - s) mod nphi = int j then fm ! nat h else 0)"
  proof -
    have "nat h < length fm" using assms by linarith
    then show ?thesis unfolding alias_below_def by (simp add: sum.distrib)
  qed
  finally show ?thesis .
qed

lemma alias_below_cong:
  assumes "length fm2 = length fm" "\<And>p. p < length fm \<Longrightarrow> int p \<le> h \<Longrightarrow> fm2 ! p = fm ! p"
  shows "alias_below fm2 s nphi h j = alias_below fm s nphi h j"
  unfolding alias_below_def using assms by (intro sum.cong) auto

lemma alias_below_neg: "h < 0 \<Longrightarrow> alias_below fm s nphi h j = 0"
  unfolding alias_below_def by (intro sum.neutral) auto

lemma fold_lower_spec:
  assumes "0 < nphi" "0 \<le> s" "vs = nat s" "vl = nat nphi" "s + nphi \<le> int (length fm)" "1 \<le> idx"
  shows "\<exists>fm'. fold_lower fm s nphi vs vl idx = Inr fm' \<and> length fm' = length fm \<and>
           (\<forall>i<length fm. fm' ! i =
              (if vs \<le> i \<and> i < vs + vl then fm ! i + alias_below fm s nphi (s - idx) (i - vs)
               else fm ! i))"
  using assms
proof (induction fm s nphi vs vl idx rule: fold_lower.induct)
  case (1 fm s nphi vs vl idx)
  show ?case
  proof (cases "s - idx \<ge> 0")
    case False
    then show ?thesis by (subst fold_lower.simps) (simp add: alias_below_neg)
  next
    case True
    define k where "k = nat ((- idx) mod nphi)"
    define r where "r = nat (s - idx)"
    define fm2 where "fm2 = fm[vs + k := fm ! (vs + k) + fm ! r]"
    have kb: "(- idx) mod nphi \<ge> 0" "(- idx) mod nphi < nphi" using "1.prems"(1) by auto
    have k: "py_index vl ((- idx) mod nphi) = Inr k"
      using kb "1.prems"(4) by (simp add: py_index_def k_def)
    have r: "py_index (length fm) (s - idx) = Inr r"
      using True "1.prems" by (simp add: py_index_def r_def)
    have klt: "k < vl" using kb "1.prems"(4) by (simp add: k_def)
    have rlt: "r < vs" "r < length fm" using True "1.prems" by (auto simp: r_def)
    have step: "fold_lower fm s nphi vs vl idx = fold_lower fm2 s nphi vs vl (idx + 1)"
      using True "1.prems"(1) k r by (subst fold_lower.simps) (simp add: fm2_def)
    have len2: "length fm2 = length fm" by (simp add: fm2_def)
    have "\<exists>fm'. fold_lower fm2 s nphi vs vl (idx + 1) = Inr fm' \<and> length fm' = length fm2 \<and>
           (\<forall>i<length fm2. fm' ! i =
              (if vs \<le> i \<and> i < vs + vl then fm2 ! i + alias_below fm2 s nphi (s - (idx + 1)) (i - vs)
               else fm2 ! i))"
    proof -
      have nz: "nphi \<noteq> 0" using "1.prems"(1) by simp
      note IH = "1.IH"[OF True nz k r, folded fm2_def]
      show ?thesis by (rule IH) (use "1.prems" len2 in auto)
    qed
    then obtain fm' where fm': "fold_lower fm2 s nphi vs vl (idx + 1) = Inr fm'" "length fm' = length fm"
      and vals: "\<And>i. i < length fm \<Longrightarrow> fm' ! i =
              (if vs \<le> i \<and> i < vs + vl then fm2 ! i + alias_below fm2 s nphi (s - (idx + 1)) (i - vs)
               else fm2 ! i)"
      using len2 by auto
    have same: "alias_below fm2 s nphi (s - (idx + 1)) j = alias_below fm s nphi (s - idx - 1) j" for j
    proof -
      have "alias_below fm2 s nphi (s - idx - 1) j = alias_below fm s nphi (s - idx - 1) j"
        by (rule alias_below_cong[OF len2]) (use "1.prems" in \<open>auto simp: fm2_def\<close>)
      then show ?thesis by (simp add: algebra_simps)
    qed
    have stp: "alias_below fm s nphi (s - idx) j =
         alias_below fm s nphi (s - idx - 1) j + (if int k = int j then fm ! r else 0)" for j
      using alias_below_step[of "s - idx" fm s nphi j] True "1.prems" kb
      by (simp add: k_def r_def)
    have fm2_at: "fm2 ! i = (if i = vs + k then fm ! i + fm ! r else fm ! i)" if "i < length fm" for i
      using that by (simp add: fm2_def)
    have "fm' ! i = (if vs \<le> i \<and> i < vs + vl then fm ! i + alias_below fm s nphi (s - idx) (i - vs)
               else fm ! i)" if "i < length fm" for i
    proof (cases "vs \<le> i \<and> i < vs + vl")
      case False
      then have "i \<noteq> vs + k" using klt by auto
      then show ?thesis using vals[OF that] False fm2_at[OF that] by auto
    next
      case W: True
      show ?thesis
      proof (cases "i = vs + k")
        case True
        then show ?thesis using vals[OF that] W fm2_at[OF that] by (simp add: same stp)
      next
        case False
        then have "k \<noteq> i - vs" using W by auto
        then show ?thesis using vals[OF that] W False fm2_at[OF that] by (simp add: same stp)
      qed
    qed
    then show ?thesis using step fm' by auto
  qed
qed


lemma alias_above_step:
  assumes "0 \<le> lo" "lo < int (length fm)"
  shows "alias_above fm s nphi lo j =
         alias_above fm s nphi (lo + 1) j + (if (lo - s) mod nphi = int j then fm ! nat lo else 0)"
proof -
  have "alias_above fm s nphi lo j =
        (\<Sum>p = 0..<length fm. (if lo + 1 \<le> int p \<and> (int p - s) mod nphi = int j then fm ! p else 0)
           + (if p = nat lo then (if (lo - s) mod nphi = int j then fm ! nat lo else 0) else 0))"
    unfolding alias_above_def using assms by (intro sum.cong) auto
  also have "\<dots> = alias_above fm s nphi (lo + 1) j + (if (lo - s) mod nphi = int j then fm ! nat lo else 0)"
  proof -
    have "nat lo < length fm" using assms by linarith
    then show ?thesis unfolding alias_above_def by (simp add: sum.distrib)
  qed
  finally show ?thesis .
qed

lemma alias_above_cong:
  assumes "length fm2 = length fm" "\<And>p. p < length fm \<Longrightarrow> lo \<le> int p \<Longrightarrow> fm2 ! p = fm ! p"
  shows "alias_above fm2 s nphi lo j = alias_above fm s nphi lo j"
  unfolding alias_above_def using assms by (intro sum.cong) auto

lemma alias_above_end: "int (length fm) \<le> lo \<Longrightarrow> alias_above fm s nphi lo j = 0"
  unfolding alias_above_def by (intro sum.neutral) auto

lemma fold_upper_spec:
  assumes "0 < nphi" "0 \<le> s" "vs = nat s" "vl = nat nphi" "s + nphi \<le> int (length fm)" "0 \<le> idx"
  shows "\<exists>fm'. fold_upper fm (s + nphi) nphi vs vl idx = Inr fm' \<and> length fm' = length fm \<and>
           (\<forall>i<length fm. fm' ! i =
              (if vs \<le> i \<and> i < vs + vl then fm ! i + alias_above fm s nphi (s + nphi + idx) (i - vs)
               else fm ! i))"
  using assms
proof (induction fm "s + nphi" nphi vs vl idx rule: fold_upper.induct)
  case (1 fm nphi vs vl idx)
  show ?case
  proof (cases "s + nphi + idx < int (length fm)")
    case False
    then show ?thesis by (subst fold_upper.simps) (simp add: alias_above_end)
  next
    case True
    define k where "k = nat (idx mod nphi)"
    define r where "r = nat (s + nphi + idx)"
    define fm2 where "fm2 = fm[vs + k := fm ! (vs + k) + fm ! r]"
    have kb: "idx mod nphi \<ge> 0" "idx mod nphi < nphi" using "1.prems"(1) by auto
    have k: "py_index vl (idx mod nphi) = Inr k"
      using kb "1.prems"(4) by (simp add: py_index_def k_def)
    have r: "py_index (length fm) (s + nphi + idx) = Inr r"
      using True "1.prems" by (simp add: py_index_def r_def)
    have klt: "k < vl" using kb "1.prems"(4) by (simp add: k_def)
    have rlt: "vs + vl \<le> r" "r < length fm" using True "1.prems" by (auto simp: r_def)
    have step: "fold_upper fm (s + nphi) nphi vs vl idx = fold_upper fm2 (s + nphi) nphi vs vl (idx + 1)"
      using True "1.prems"(1) k r by (subst fold_upper.simps) (simp add: fm2_def)
    have len2: "length fm2 = length fm" by (simp add: fm2_def)
    have "\<exists>fm'. fold_upper fm2 (s + nphi) nphi vs vl (idx + 1) = Inr fm' \<and> length fm' = length fm2 \<and>
           (\<forall>i<length fm2. fm' ! i =
              (if vs \<le> i \<and> i < vs + vl then fm2 ! i + alias_above fm2 s nphi (s + nphi + (idx + 1)) (i - vs)
               else fm2 ! i))"
    proof -
      have nz: "nphi \<noteq> 0" using "1.prems"(1) by simp
      note IH = "1.hyps"[OF True nz k r, folded fm2_def]
      show ?thesis by (rule IH) (use "1.prems" len2 in auto)
    qed
    then obtain fm' where fm': "fold_upper fm2 (s + nphi) nphi vs vl (idx + 1) = Inr fm'" "length fm' = length fm"
      and vals: "\<And>i. i < length fm \<Longrightarrow> fm' ! i =
              (if vs \<le> i \<and> i < vs + vl then fm2 ! i + alias_above fm2 s nphi (s + nphi + (idx + 1)) (i - vs)
               else fm2 ! i)"
      using len2 by auto
    have same: "alias_above fm2 s nphi (s + nphi + (idx + 1)) j = alias_above fm s nphi (s + nphi + idx + 1) j" for j
    proof -
      have "alias_above fm2 s nphi (s + nphi + idx + 1) j = alias_above fm s nphi (s + nphi + idx + 1) j"
        by (rule alias_above_cong[OF len2]) (use "1.prems" klt in \<open>auto simp: fm2_def\<close>)
      then show ?thesis by (simp add: algebra_simps)
    qed
    have "(s + nphi + idx - s) mod nphi = idx mod nphi" by (simp add: algebra_simps)
    then have stp: "alias_above fm s nphi (s + nphi + idx) j =
         alias_above fm s nphi (s + nphi + idx + 1) j + (if int k = int j then fm ! r else 0)" for j
      using alias_above_step[of "s + nphi + idx" fm s nphi j] True "1.prems" kb
      by (simp add: k_def r_def)
    have fm2_at: "fm2 ! i = (if i = vs + k then fm ! i + fm ! r else fm ! i)" if "i < length fm" for i
      using that by (simp add: fm2_def)
    have "fm' ! i = (if vs \<le> i \<and> i < vs + vl then fm ! i + alias_above fm s nphi (s + nphi + idx) (i - vs)
               else fm ! i)" if "i < length fm" for i
    proof (cases "vs \<le> i \<and> i < vs + vl")
      case False
      then have "i \<noteq> vs + k" using klt by auto
      then show ?thesis using vals[OF that] False fm2_at[OF that] by auto
    next
      case W: True
      show ?thesis
      proof (cases "i = vs + k")
        case True
        then show ?thesis using vals[OF that] W fm2_at[OF that] by (simp add: same stp)
      next
        case False
        then have "k \<noteq> i - vs" using W by auto
        then show ?thesis using vals[OF that] W False fm2_at[OF that] by (simp add: same stp)
      qed
    qed
    then show ?thesis using step fm' by auto
  qed
qed


lemma aliased_split:
  assumes "0 < nphi"
  shows "aliased fm s nphi j = alias_below fm s nphi (s - 1) j + alias_above fm s nphi (s + nphi) j"
  unfolding aliased_def alias_below_def alias_above_def sum.distrib[symmetric]
  using assms by (intro sum.cong) auto

lemma spectral_folding_spec:
  assumes "1 \<le> nphi" "nphi \<le> 2 * L" "L - nphi div 2 + nphi \<le> int (length fm)"
  shows "\<exists>buf. spectral_folding fm nphi L = Inr (buf, nat (L - nphi div 2), nat nphi) \<and>
           length buf = length fm \<and>
           (\<forall>i<length fm. buf ! i =
              (if nat (L - nphi div 2) \<le> i \<and> i < nat (L - nphi div 2) + nat nphi
               then fm ! i + aliased fm (L - nphi div 2) nphi (i - nat (L - nphi div 2))
               else fm ! i))"
proof -
  define s where "s = L - nphi div 2"
  have s0: "0 \<le> s" using assms by (simp add: s_def)
  have sl: "s + nphi \<le> int (length fm)" using assms by (simp add: s_def)
  have vs: "norm_slice (length fm) s = nat s" using s0 sl assms(1) by (simp add: norm_slice_def)
  have ve: "norm_slice (length fm) (s + nphi) = nat (s + nphi)"
    using s0 sl assms(1) by (simp add: norm_slice_def)
  have vl: "max (nat s) (nat (s + nphi)) - nat s = nat nphi" using s0 assms(1) by simp
  obtain fm1 where fm1: "fold_lower fm s nphi (nat s) (nat nphi) 1 = Inr fm1" "length fm1 = length fm"
    and v1: "\<And>i. i < length fm \<Longrightarrow> fm1 ! i =
              (if nat s \<le> i \<and> i < nat s + nat nphi then fm ! i + alias_below fm s nphi (s - 1) (i - nat s)
               else fm ! i)"
    using fold_lower_spec[of nphi s "nat s" "nat nphi" fm 1] assms(1) s0 sl by auto
  obtain fm2 where fm2: "fold_upper fm1 (s + nphi) nphi (nat s) (nat nphi) 0 = Inr fm2" "length fm2 = length fm"
    and v2: "\<And>i. i < length fm \<Longrightarrow> fm2 ! i =
              (if nat s \<le> i \<and> i < nat s + nat nphi then fm1 ! i + alias_above fm1 s nphi (s + nphi) (i - nat s)
               else fm1 ! i)"
    using fold_upper_spec[of nphi s "nat s" "nat nphi" fm1 0] assms(1) s0 sl fm1(2) by auto
  have ab: "alias_above fm1 s nphi (s + nphi) j = alias_above fm s nphi (s + nphi) j" for j
    by (rule alias_above_cong[OF fm1(2)]) (use v1 s0 assms(1) in auto)
  have res: "spectral_folding fm nphi L = Inr (fm2, nat s, nat nphi)"
    using assms(2) fm1(1) fm2(1) vs ve vl
    by (simp add: spectral_folding_def Let_def s_def[symmetric])
  have "fm2 ! i = (if nat s \<le> i \<and> i < nat s + nat nphi
               then fm ! i + aliased fm s nphi (i - nat s) else fm ! i)" if "i < length fm" for i
    using v2[OF that] v1[OF that] assms(1) by (simp add: ab aliased_split)
  then show ?thesis using res fm2(2) unfolding s_def by blast
qed

lemma extend_lower_spec:
  assumes "0 < nphi" "0 \<le> s" "length fm = nat nphi" "s \<le> int (length ff)" "1 \<le> idx"
  shows "\<exists>ff'. extend_lower ff fm s nphi idx = Inr ff' \<and> length ff' = length ff \<and>
           (\<forall>p<length ff. ff' ! p =
              (if int p \<le> s - idx then fm ! nat ((int p - s) mod nphi) else ff ! p))"
  using assms
proof (induction ff fm s nphi idx rule: extend_lower.induct)
  case (1 ff fm s nphi idx)
  show ?case
  proof (cases "s - idx \<ge> 0")
    case False
    then show ?thesis by (subst extend_lower.simps) auto
  next
    case True
    define k where "k = nat ((- idx) mod nphi)"
    define r where "r = nat (s - idx)"
    define ff2 where "ff2 = ff[r := fm ! k]"
    have kb: "(- idx) mod nphi \<ge> 0" "(- idx) mod nphi < nphi" using "1.prems"(1) by auto
    have k: "py_index (length fm) ((- idx) mod nphi) = Inr k"
      using kb "1.prems"(3) by (simp add: py_index_def k_def)
    have r: "py_index (length ff) (s - idx) = Inr r"
      using True "1.prems" by (simp add: py_index_def r_def)
    have rlt: "r < length ff" using True "1.prems" by (auto simp: r_def)
    have step: "extend_lower ff fm s nphi idx = extend_lower ff2 fm s nphi (idx + 1)"
      using True "1.prems"(1) k r by (subst extend_lower.simps) (simp add: ff2_def)
    have len2: "length ff2 = length ff" by (simp add: ff2_def)
    have "\<exists>ff'. extend_lower ff2 fm s nphi (idx + 1) = Inr ff' \<and> length ff' = length ff2 \<and>
           (\<forall>p<length ff2. ff' ! p =
              (if int p \<le> s - (idx + 1) then fm ! nat ((int p - s) mod nphi) else ff2 ! p))"
    proof -
      have nz: "nphi \<noteq> 0" using "1.prems"(1) by simp
      note IH = "1.IH"[OF True nz k r, folded ff2_def]
      show ?thesis by (rule IH) (use "1.prems" len2 in auto)
    qed
    then obtain ff' where ff': "extend_lower ff2 fm s nphi (idx + 1) = Inr ff'" "length ff' = length ff"
      and vals: "\<And>p. p < length ff \<Longrightarrow> ff' ! p =
              (if int p \<le> s - (idx + 1) then fm ! nat ((int p - s) mod nphi) else ff2 ! p)"
      using len2 by auto
    have "ff' ! p = (if int p \<le> s - idx then fm ! nat ((int p - s) mod nphi) else ff ! p)"
      if "p < length ff" for p
    proof (cases "p = r")
      case True
      have "int r - s = - idx" using \<open>s - idx \<ge> 0\<close> by (simp add: r_def)
      then show ?thesis using vals[OF that] True rlt \<open>s - idx \<ge> 0\<close>
        by (simp add: ff2_def k_def r_def)
    next
      case False
      then have "int p \<noteq> s - idx" using \<open>s - idx \<ge> 0\<close> by (auto simp: r_def)
      then show ?thesis using vals[OF that] False by (auto simp: ff2_def)
    qed
    then show ?thesis using step ff' by auto
  qed
qed

lemma extend_upper_spec:
  assumes "0 < nphi" "0 \<le> s + nphi" "length fm = nat nphi" "0 \<le> idx"
  shows "\<exists>ff'. extend_upper ff fm (s + nphi) nphi idx = Inr ff' \<and> length ff' = length ff \<and>
           (\<forall>p<length ff. ff' ! p =
              (if s + nphi + idx \<le> int p then fm ! nat ((int p - s) mod nphi) else ff ! p))"
  using assms
proof (induction ff fm "s + nphi" nphi idx rule: extend_upper.induct)
  case (1 ff fm nphi idx)
  show ?case
  proof (cases "s + nphi + idx < int (length ff)")
    case False
    then show ?thesis by (subst extend_upper.simps) auto
  next
    case True
    define k where "k = nat (idx mod nphi)"
    define r where "r = nat (s + nphi + idx)"
    define ff2 where "ff2 = ff[r := fm ! k]"
    have kb: "idx mod nphi \<ge> 0" "idx mod nphi < nphi" using "1.prems"(1) by auto
    have k: "py_index (length fm) (idx mod nphi) = Inr k"
      using kb "1.prems"(3) by (simp add: py_index_def k_def)
    have r: "py_index (length ff) (s + nphi + idx) = Inr r"
      using True "1.prems" by (simp add: py_index_def r_def)
    have rlt: "r < length ff" using True "1.prems" by (auto simp: r_def)
    have step: "extend_upper ff fm (s + nphi) nphi idx = extend_upper ff2 fm (s + nphi) nphi (idx + 1)"
      using True "1.prems"(1) k r by (subst extend_upper.simps) (simp add: ff2_def)
    have len2: "length ff2 = length ff" by (simp add: ff2_def)
    have "\<exists>ff'. extend_upper ff2 fm (s + nphi) nphi (idx + 1) = Inr ff' \<and> length ff' = length ff2 \<and>
           (\<forall>p<length ff2. ff' ! p =
              (if s + nphi + (idx + 1) \<le> int p then fm ! nat ((int p - s) mod nphi) else ff2 ! p))"
    proof -
      have nz: "nphi \<noteq> 0" using "1.prems"(1) by simp
      note IH = "1.hyps"[OF True nz k r, folded ff2_def]
      show ?thesis by (rule IH) (use "1.prems" len2 in auto)
    qed
    then obtain ff' where ff': "extend_upper ff2 fm (s + nphi) nphi (idx + 1) = Inr ff'" "length ff' = length ff"
      and vals: "\<And>p. p < length ff \<Longrightarrow> ff' ! p =
              (if s + nphi + (idx + 1) \<le> int p then fm ! nat ((int p - s) mod nphi) else ff2 ! p)"
      using len2 by auto
    have "ff' ! p = (if s + nphi + idx \<le> int p then fm ! nat ((int p - s) mod nphi) else ff ! p)"
      if "p < length ff" for p
    proof (cases "p = r")
      case True
      have "(int r - s) mod nphi = idx mod nphi" using "1.prems" by (simp add: r_def algebra_simps)
      then show ?thesis using vals[OF that] True rlt "1.prems"
        by (simp add: ff2_def k_def) (simp add: r_def)
    next
      case False
      then have "int p \<noteq> s + nphi + idx" using "1.prems" by (auto simp: r_def)
      then show ?thesis using vals[OF that] False by (auto simp: ff2_def)
    qed
    then show ?thesis using step ff' by auto
  qed
qed


lemma extension_spec:
  assumes "1 \<le> nphi" "nphi \<le> 2 * L" "length fm = nat nphi"
  shows "\<exists>ext. spectral_periodic_extension fm nphi L = Inr ext \<and> length ext = nat (2 * L) \<and>
           (\<forall>p<nat (2 * L). ext ! p = fm ! nat ((int p - (L - nphi div 2)) mod nphi))"
proof -
  define s where "s = L - nphi div 2"
  define zeros where "zeros = replicate (nat (2 * L)) (0 :: complex)"
  define ff0 where "ff0 = take (nat s) zeros @ fm @ drop (nat (s + nphi)) zeros"
  have s0: "0 \<le> s" using assms by (simp add: s_def)
  have sl: "s + nphi \<le> 2 * L" using assms by (simp add: s_def)
  have lz: "length zeros = nat (2 * L)" by (simp add: zeros_def)
  have vs: "norm_slice (length zeros) s = nat s" using s0 sl assms(1) by (simp add: norm_slice_def lz)
  have ve: "norm_slice (length zeros) (s + nphi) = nat (s + nphi)"
    using s0 sl assms(1) by (simp add: norm_slice_def lz)
  have vl: "max (nat s) (nat (s + nphi)) - nat s = nat nphi" using s0 assms(1) by simp
  have mx: "max (nat s) (nat (s + nphi)) = nat (s + nphi)" using s0 assms(1) by simp
  have vl': "nat (s + nphi) - nat s = length fm" using s0 assms(1,3) by simp
  have l0: "length ff0 = nat (2 * L)" using s0 sl assms by (simp add: ff0_def lz)
  have ff0_win: "ff0 ! p = fm ! (p - nat s)" if "nat s \<le> p" "p < nat s + nat nphi" for p
  proof -
    have lt: "length (take (nat s) zeros) = nat s" using s0 sl assms(1) by (simp add: lz)
    have "p - nat s < length fm" using that assms(3) by linarith
    then show ?thesis using that(1) lt unfolding ff0_def by (simp add: nth_append)
  qed
  obtain ff1 where ff1: "extend_lower ff0 fm s nphi 1 = Inr ff1" "length ff1 = length ff0"
    and v1: "\<And>p. p < length ff0 \<Longrightarrow> ff1 ! p =
              (if int p \<le> s - 1 then fm ! nat ((int p - s) mod nphi) else ff0 ! p)"
    using extend_lower_spec[of nphi s fm ff0 1] assms s0 sl l0 by auto
  obtain ff2 where ff2: "extend_upper ff1 fm (s + nphi) nphi 0 = Inr ff2" "length ff2 = length ff1"
    and v2: "\<And>p. p < length ff1 \<Longrightarrow> ff2 ! p =
              (if s + nphi + 0 \<le> int p then fm ! nat ((int p - s) mod nphi) else ff1 ! p)"
    using extend_upper_spec[of nphi s fm 0 ff1] assms s0 by auto
  have res: "spectral_periodic_extension fm nphi L = Inr ff2"
    using assms ff1(1) ff2(1) s0 sl
    by (simp add: spectral_periodic_extension_def Let_def s_def[symmetric] zeros_def[symmetric]
        vs ve mx vl' ff0_def[symmetric])
  have "ff2 ! p = fm ! nat ((int p - s) mod nphi)" if "p < nat (2 * L)" for p
  proof -
    have a: "ff2 ! p = (if s + nphi \<le> int p then fm ! nat ((int p - s) mod nphi) else ff1 ! p)"
      using v2[of p] that ff1(2) l0 by simp
    have b: "ff1 ! p = (if int p \<le> s - 1 then fm ! nat ((int p - s) mod nphi) else ff0 ! p)"
      using v1[of p] that l0 by simp
    show ?thesis
    proof (cases "nat s \<le> p \<and> p < nat s + nat nphi")
      case True
      then have "0 \<le> int p - s" "int p - s < nphi" using s0 assms(1) by linarith+
      then have "(int p - s) mod nphi = int p - s" by (rule mod_pos_pos_trivial)
      then have "nat ((int p - s) mod nphi) = p - nat s" using True s0 by simp
      then show ?thesis using a b ff0_win[of p] True s0 assms(1) by auto
    next
      case False
      then show ?thesis using a b s0 assms(1) by auto
    qed
  qed
  then show ?thesis using res ff2(2) ff1(2) l0 unfolding s_def by auto
qed

lemma sum_if_const:
  "(\<Sum>p = 0..<n. if P p then x else 0) = of_nat (length (filter P [0..<n])) * (x :: complex)"
  by (induction n) (auto simp: algebra_simps)

lemma fold_extend_value:
  assumes "1 \<le> nphi" "nphi \<le> 2 * L" "length fm = nat nphi"
  shows "\<exists>ext buf. spectral_periodic_extension fm nphi L = Inr ext \<and>
           spectral_folding ext nphi L = Inr (buf, nat (L - nphi div 2), nat nphi) \<and>
           view_of buf (nat (L - nphi div 2)) (nat nphi) =
             map (\<lambda>j. of_nat (multiplicity L nphi j) * fm ! j) [0..<nat nphi]"
proof -
  define s where "s = L - nphi div 2"
  have s0: "0 \<le> s" using assms by (simp add: s_def)
  have sl: "s + nphi \<le> 2 * L" using assms by (simp add: s_def)
  obtain ext where ext: "spectral_periodic_extension fm nphi L = Inr ext" "length ext = nat (2 * L)"
    and ev: "\<And>p. p < nat (2 * L) \<Longrightarrow> ext ! p = fm ! nat ((int p - s) mod nphi)"
    using extension_spec[OF assms] unfolding s_def by auto
  have "L - nphi div 2 + nphi \<le> int (length ext)" using sl ext(2) s0 assms(1) by (simp add: s_def)
  from spectral_folding_spec[OF assms(1,2) this]
  obtain buf where buf: "spectral_folding ext nphi L = Inr (buf, nat s, nat nphi)" "length buf = length ext"
    and bv: "\<And>i. i < length ext \<Longrightarrow> buf ! i =
              (if nat s \<le> i \<and> i < nat s + nat nphi
               then ext ! i + aliased ext s nphi (i - nat s) else ext ! i)"
    unfolding s_def by auto
  have val: "buf ! (nat s + j) = of_nat (multiplicity L nphi j) * fm ! j" if "j < nat nphi" for j
  proof -
    have lt: "nat s + j < nat (2 * L)" using that s0 sl by linarith
    have e0: "ext ! (nat s + j) = fm ! j"
    proof -
      have "int (nat s + j) - s = int j" using s0 by simp
      moreover have "int j mod nphi = int j" using that by (intro mod_pos_pos_trivial) linarith+
      ultimately have "(int (nat s + j) - s) mod nphi = int j" by simp
      then show ?thesis using ev[OF lt] by simp
    qed
    have "ext ! (nat s + j) + aliased ext s nphi j =
          (\<Sum>p = 0..<nat (2 * L). if (int p - s) mod nphi = int j then fm ! j else 0)"
    proof -
      have "(\<Sum>p = 0..<nat (2 * L). if (int p - s) mod nphi = int j then fm ! j else 0) =
            (\<Sum>p = 0..<nat (2 * L).
               (if (int p < s \<or> s + nphi \<le> int p) \<and> (int p - s) mod nphi = int j then ext ! p else 0)
               + (if p = nat s + j then fm ! j else 0))"
      proof (intro sum.cong refl)
        fix p assume "p \<in> {0..<nat (2 * L)}"
        then have pl: "p < nat (2 * L)" by simp
        show "(if (int p - s) mod nphi = int j then fm ! j else 0) =
               (if (int p < s \<or> s + nphi \<le> int p) \<and> (int p - s) mod nphi = int j then ext ! p else 0)
               + (if p = nat s + j then fm ! j else 0)"
        proof (cases "int p < s \<or> s + nphi \<le> int p")
          case True
          then have "p \<noteq> nat s + j" using that s0 by auto
          then show ?thesis using True ev[OF pl] by auto
        next
          case False
          then have "0 \<le> int p - s" "int p - s < nphi" by linarith+
          then have "(int p - s) mod nphi = int p - s" by (rule mod_pos_pos_trivial)
          then have "(int p - s) mod nphi = int j \<longleftrightarrow> p = nat s + j" using False s0 by auto
          then show ?thesis using False by auto
        qed
      qed
      also have "\<dots> = aliased ext s nphi j + fm ! j"
        using lt by (simp add: sum.distrib aliased_def ext(2))
      finally show ?thesis using e0 by simp
    qed
    then show ?thesis using bv[of "nat s + j"] lt that ext(2)
      by (simp add: sum_if_const multiplicity_def s_def)
  qed
  have "view_of buf (nat s) (nat nphi) = map (\<lambda>j. of_nat (multiplicity L nphi j) * fm ! j) [0..<nat nphi]"
  proof (rule nth_equalityI)
    show "length (view_of buf (nat s) (nat nphi)) =
          length (map (\<lambda>j. of_nat (multiplicity L nphi j) * fm ! j) [0..<nat nphi])"
      using buf(2) ext(2) s0 sl by (simp add: view_of_def)
  next
    fix j assume "j < length (view_of buf (nat s) (nat nphi))"
    then have j: "j < nat nphi" by (simp add: view_of_def)
    then show "view_of buf (nat s) (nat nphi) ! j =
               map (\<lambda>j. of_nat (multiplicity L nphi j) * fm ! j) [0..<nat nphi] ! j"
      using val[OF j] buf(2) ext(2) s0 sl by (simp add: view_of_def)
  qed
  then show ?thesis using ext(1) buf(1) unfolding s_def by blast
qed

lemma multiplicity_full:
  assumes "1 \<le> nphi" "nphi = 2 * L" "j < nat nphi"
  shows "multiplicity L nphi j = 1"
proof -
  have "of_nat (multiplicity L nphi j) * (1::complex) =
        (\<Sum>p = 0..<nat (2 * L). if p = j then 1 else 0)"
    unfolding multiplicity_def sum_if_const[symmetric]
    using assms by (intro sum.cong refl) (auto simp: mod_pos_pos_trivial)
  also have "\<dots> = 1" using assms by simp
  finally show ?thesis by simp
qed


section \<open>Array lemmas\<close>

lemma has_shape2_nth: "has_shape2 a b A \<Longrightarrow> i < a \<Longrightarrow> length (A ! i) = b"
  by (auto simp: has_shape2_def list_all_length)

lemma has_shape3_nth: "has_shape3 a b c A \<Longrightarrow> i < a \<Longrightarrow> has_shape2 b c (A ! i)"
  by (auto simp: has_shape3_def list_all_length)

lemma has_shape3_len: "has_shape3 a b c A \<Longrightarrow> length A = a"
  by (simp add: has_shape3_def)

lemma has_shape2_len: "has_shape2 a b A \<Longrightarrow> length A = a"
  by (simp add: has_shape2_def)

lemma has_shape3_I:
  assumes "length A = a" "\<And>i. i < a \<Longrightarrow> length (A ! i) = b"
    "\<And>i j. i < a \<Longrightarrow> j < b \<Longrightarrow> length (A ! i ! j) = c"
  shows "has_shape3 a b c A"
  using assms by (auto simp: has_shape3_def has_shape2_def list_all_length)

lemma has_shape3_shape3:
  assumes "has_shape3 a b c A" "0 < a" "0 < b"
  shows "shape3 A = (int a, int b, int c)"
proof -
  have A: "A \<noteq> []" using assms by (auto simp: has_shape3_def)
  then have h: "hd A = A ! 0" by (simp add: hd_conv_nth)
  have s2: "has_shape2 b c (A ! 0)" using assms has_shape3_nth by blast
  then have B: "hd A \<noteq> []" using assms h by (auto simp: has_shape2_def)
  then have h2: "hd (hd A) = A ! 0 ! 0" using h by (simp add: hd_conv_nth)
  have "length (A ! 0 ! 0) = c" using s2 assms has_shape2_nth by blast
  then show ?thesis using A B h h2 s2 assms by (simp add: shape3_def has_shape3_def has_shape2_def)
qed

lemma zeros3_shape:
  assumes "zeros3 (a, b, c) = Inr A"
  shows "has_shape3 (nat a) (nat b) (nat c) A" "0 \<le> a" "0 \<le> b" "0 \<le> c"
  using assms by (auto simp: zeros3_def has_shape3_def has_shape2_def list_all_length split: if_splits)

lemma set_last_spec:
  assumes "set_last A k M = Inr A'" "has_shape3 a b c A" "0 < a" "0 < b"
  shows "has_shape3 a b c A'"
    and "\<exists>q. py_index c k = Inr q \<and> q < c \<and> has_shape2 a b M \<and>
           (\<forall>i<a. \<forall>j<b. \<forall>t<c. A' ! i ! j ! t = (if t = q then M ! i ! j else A ! i ! j ! t))"
proof -
  have sh: "shape3 A = (int a, int b, int c)" using has_shape3_shape3[OF assms(2-4)] .
  then have ll: "last_axis_len A = c" by (simp add: last_axis_len_def)
  from assms(1) obtain q where q: "py_index c k = Inr q"
    and M: "shape2 M = (int a, int b)" "rect2 M"
    and A': "A' = map2 (\<lambda>p mp. map2 (\<lambda>r v. r[q := v]) p mp) A M"
    using sh ll by (auto simp: set_last_def split: sum.splits if_splits)
  have qc: "q < c" using q by (auto simp: py_index_def Let_def split: if_splits)
  have lM: "length M = a" using M by (simp add: shape2_def)
  then have Mne: "M \<noteq> []" using assms(3) by auto
  then have "length (hd M) = b" using M by (simp add: shape2_def)
  then have M2: "has_shape2 a b M" using M(2) lM by (simp add: rect2_def has_shape2_def)
  have lA: "length A = a" using assms(2) by (simp add: has_shape3_def)
  have rowA: "length (A ! i) = b" if "i < a" for i
    using has_shape2_len[OF has_shape3_nth[OF assms(2) that]] .
  have rowM: "length (M ! i) = b" if "i < a" for i using has_shape2_nth[OF M2 that] .
  have cellA: "length (A ! i ! j) = c" if "i < a" "j < b" for i j
    using has_shape2_nth[OF has_shape3_nth[OF assms(2) that(1)] that(2)] .
  have plane: "A' ! i = map2 (\<lambda>r v. r[q := v]) (A ! i) (M ! i)" if "i < a" for i
    using that lA lM by (simp add: A')
  have cell: "A' ! i ! j = (A ! i ! j)[q := M ! i ! j]" if "i < a" "j < b" for i j
    using that rowA rowM plane by simp
  show "has_shape3 a b c A'"
  proof (rule has_shape3_I)
    show "length A' = a" using lA lM by (simp add: A')
    show "length (A' ! i) = b" if "i < a" for i using that plane rowA rowM by simp
    show "length (A' ! i ! j) = c" if "i < a" "j < b" for i j using that cell cellA by simp
  qed
  show "\<exists>q. py_index c k = Inr q \<and> q < c \<and> has_shape2 a b M \<and>
           (\<forall>i<a. \<forall>j<b. \<forall>t<c. A' ! i ! j ! t = (if t = q then M ! i ! j else A ! i ! j ! t))"
    using q qc M2 cell cellA by (intro exI[of _ q]) auto
qed

lemma get_last_spec:
  assumes "get_last A k = Inr S" "has_shape3 a b c A" "0 < a" "0 < b"
  shows "\<exists>q. py_index c k = Inr q \<and> q < c \<and> has_shape2 a b S \<and>
           (\<forall>i<a. \<forall>j<b. S ! i ! j = A ! i ! j ! q)"
proof -
  have sh: "shape3 A = (int a, int b, int c)" using has_shape3_shape3[OF assms(2-4)] .
  then have ll: "last_axis_len A = c" by (simp add: last_axis_len_def)
  from assms(1) obtain q where q: "py_index c k = Inr q"
    and S: "S = map (map (\<lambda>r. r ! q)) A"
    using ll by (auto simp: get_last_def split: sum.splits)
  have qc: "q < c" using q by (auto simp: py_index_def Let_def split: if_splits)
  have lA: "length A = a" using assms(2) by (simp add: has_shape3_def)
  have rowA: "length (A ! i) = b" if "i < a" for i
    using has_shape2_len[OF has_shape3_nth[OF assms(2) that]] .
  have "has_shape2 a b S" using lA rowA by (auto simp: S has_shape2_def list_all_length)
  moreover have "S ! i ! j = A ! i ! j ! q" if "i < a" "j < b" for i j
    using that lA rowA by (simp add: S)
  ultimately show ?thesis using q qc by blast
qed



lemma length_dft [simp]: "length (dft sg xs) = length xs"
  by (simp add: dft_def Let_def)



section \<open>The round trip of the Wigner transform\<close>

text \<open>Neither transform gets past its call of \<open>f_shape\<close>.\<close>

lemma wigner_inverse_raises:
  "wigner_inverse T flmn L N L_lower sampling reality nside =
     (if shape3 flmn = flmn_shape L N
      then Inl (TypeError ''f_shape() takes from 2 to 3 positional arguments but 4 were given'')
      else Inl AssertionError)"
  by (simp add: wigner_inverse_def f_shape_nside_def)

lemma wigner_forward_raises:
  "wigner_forward T f L N L_lower sampling reality nside =
     Inl (TypeError ''f_shape() takes from 2 to 3 positional arguments but 4 were given'')"
  by (simp add: wigner_forward_def f_shape_nside_def)

text \<open>
  Claim C1.  The claim is that \<open>forward(inverse(flmn, L, N, sampling), L, N, sampling)\<close> gives
  \<open>flmn\<close> back for every array \<open>flmn\<close> of shape \<open>flmn_shape(L, N)\<close> that is zero outside its
  support.  At \<open>L = 4\<close>, \<open>N = 2\<close>, \<open>sampling = "mw"\<close> and the array of zeros of shape
  \<open>(4, 7, 3)\<close>, \<open>inverse\<close> passes its assertion and raises \<open>TypeError\<close> at the call of
  \<open>f_shape\<close>, whatever the spin-spherical transforms are; no array reaches \<open>forward\<close>, which
  raises the same error on any array.
\<close>

theorem wigner_round_trip_raises:
  "shape3 (replicate 4 (replicate 7 (replicate 3 (0 :: complex)))) = flmn_shape 4 2 \<and>
   wigner_inverse T (replicate 4 (replicate 7 (replicate 3 0))) 4 2 0 ''mw'' False None =
     Inl (TypeError ''f_shape() takes from 2 to 3 positional arguments but 4 were given'') \<and>
   wigner_forward T f 4 2 0 ''mw'' False None =
     Inl (TypeError ''f_shape() takes from 2 to 3 positional arguments but 4 were given'')"
  by (simp add: wigner_inverse_raises wigner_forward_raises shape3_def flmn_shape_def)


section \<open>Folding after extension\<close>

text \<open>
  C2 (as the code has it).  For \<open>1 \<le> nphi \<le> 2 * L\<close> and \<open>fm\<close> of length \<open>nphi\<close>, both
  functions return, and folding the periodic extension of \<open>fm\<close> gives entry \<open>j\<close> of \<open>fm\<close>
  multiplied by the number of the \<open>2 * L\<close> cells of the extended array that alias to
  \<open>j\<close> modulo \<open>nphi\<close>: the extension copies \<open>fm\<close> into those cells and the folding adds
  them all up.  The result is \<open>fm\<close> itself when \<open>nphi = 2 * L\<close>, where every
  multiplicity is one.
\<close>

theorem spectral_folding_extension:
  assumes "1 \<le> nphi" "nphi \<le> 2 * L" "length fm = nat nphi"
  shows "\<exists>ext buf. spectral_periodic_extension fm nphi L = Inr ext \<and>
           spectral_folding ext nphi L = Inr (buf, nat (L - nphi div 2), nat nphi) \<and>
           view_of buf (nat (L - nphi div 2)) (nat nphi) =
             map (\<lambda>j. of_nat (multiplicity L nphi j) * fm ! j) [0..<nat nphi] \<and>
           (nphi = 2 * L \<longrightarrow> view_of buf (nat (L - nphi div 2)) (nat nphi) = fm)"
proof -
  obtain ext buf where e: "spectral_periodic_extension fm nphi L = Inr ext"
    and f: "spectral_folding ext nphi L = Inr (buf, nat (L - nphi div 2), nat nphi)"
    and v: "view_of buf (nat (L - nphi div 2)) (nat nphi) =
             map (\<lambda>j. of_nat (multiplicity L nphi j) * fm ! j) [0..<nat nphi]"
    using fold_extend_value[OF assms] by blast
  have "view_of buf (nat (L - nphi div 2)) (nat nphi) = fm" if "nphi = 2 * L"
  proof -
    have "map (\<lambda>j. of_nat (multiplicity L nphi j) * fm ! j) [0..<nat nphi] = fm"
      using assms(1,3) that by (intro nth_equalityI) (simp_all add: multiplicity_full)
    then show ?thesis using v by simp
  qed
  then show ?thesis using e f v by blast
qed

theorem spectral_folding_extension_witness:
  "(1::int) \<le> 2 \<and> (2::int) \<le> 2 * 2 \<and> length [1, 2 :: complex] = nat 2 \<and>
   (\<exists>ext buf. spectral_periodic_extension [1, 2] 2 2 = Inr ext \<and>
      spectral_folding ext 2 2 = Inr (buf, 1, 2) \<and>
      view_of buf 1 2 = [of_nat (multiplicity 2 2 0) * 1, of_nat (multiplicity 2 2 1) * 2])"
  using spectral_folding_extension [of 2 2 "[1, 2]"] by (simp add: upt_rec)

theorem spectral_folding_extension_counterexample:
  "spectral_periodic_extension [1, 2] 2 2 = Inr [2, 1, 2, 1] \<and>
   spectral_folding [2, 1, 2, 1] 2 2 = Inr ([2, 2, 4, 1], 1, 2) \<and>
   view_of [2, 2, 4, 1] 1 2 = [2, 4] \<and>
   [2, 4] \<noteq> [1, 2 :: complex]"
  by (simp add: spectral_periodic_extension_def spectral_folding_def view_of_def
      norm_slice_def py_index_def fold_lower.simps fold_upper.simps
      extend_lower.simps extend_upper.simps)


section \<open>Unsupported sampling schemes\<close>


lemma lower_supported:
  "sampling \<in> set [''mw'', ''mwss'', ''dh''] \<Longrightarrow> lower sampling = sampling"
  by (auto simp: lower_def lower_char_def)







section \<open>Conjugate symmetry of the forward transform under reality\<close>

text \<open>The loop of \<open>forward\<close>, run with \<open>reality=True\<close> on an array of the shape of \<open>flmn\<close>, leaves
  the slices of the orders \<open>n\<close> and \<open>- n\<close> conjugate symmetric (\<open>forward_loop_sym\<close>).\<close>

lemma py_index_nonneg: "py_index c k = Inr q \<Longrightarrow> 0 \<le> k \<Longrightarrow> q = nat k"
  by (auto simp: py_index_def Let_def split: if_splits)

lemma neg_one_pow_abs_add: "neg_one_pow \<bar>m\<bar> * neg_one_pow n = neg_one_pow (m + n)"
  by (auto simp: neg_one_pow_def)

lemma cnj_neg_one_pow: "cnj (neg_one_pow n) = neg_one_pow n"
  by (simp add: neg_one_pow_def)

lemma forward_step:
  assumes sh: "has_shape3 (nat L) (nat (2 * L - 1)) (nat (2 * N - 1)) A"
    and L: "1 \<le> L" and n: "0 \<le> n" "n \<le> N - 1"
    and sg: "sgns = map (\<lambda>j. neg_one_pow \<bar>j\<bar>) [- L + 1..L - 1]"
    and run: "forward_loop T fban L N L_lower sampling True nside sgns n_start_ind A (n # rest) = Inr R"
  shows "\<exists>A2. forward_loop T fban L N L_lower sampling True nside sgns n_start_ind A2 rest = Inr R \<and>
           has_shape3 (nat L) (nat (2 * L - 1)) (nat (2 * N - 1)) A2 \<and>
           (\<forall>i<nat L. \<forall>j<nat (2 * L - 1). \<forall>t<nat (2 * N - 1).
              t \<noteq> nat (N - 1 + n) \<and> t \<noteq> nat (N - 1 - n) \<longrightarrow> A2 ! i ! j ! t = A ! i ! j ! t) \<and>
           (1 \<le> n \<longrightarrow>
              (\<forall>l m. 0 \<le> l \<and> l < L \<and> \<bar>m\<bar> \<le> L - 1 \<longrightarrow>
                 A2 ! nat l ! nat (L - 1 - m) ! nat (N - 1 - n) =
                 neg_one_pow (m + n) * cnj (A2 ! nat l ! nat (L - 1 + m) ! nat (N - 1 + n))))"
proof -
  define a where "a = nat L"
  define b where "b = nat (2 * L - 1)"
  define c where "c = nat (2 * N - 1)"
  have a0: "0 < a" and b0: "0 < b" using L by (auto simp: a_def b_def)
  note shA = sh[folded a_def b_def c_def]
  from run obtain fb flm flmn1 where
    s1: "set_last A (N - 1 + n) (map (map (\<lambda>x. neg_one_pow n * x)) flm) = Inr flmn1"
    and rest: "(if n \<noteq> 0 then
                 (case get_last flmn1 (N - 1 + n) of
                         Inl e \<Rightarrow> Inl e
                       | Inr s \<Rightarrow>
                           (case set_last flmn1 (N - 1 - n)
                                   (map (\<lambda>r. map cnj (rev (map2 (\<lambda>x sg. x * sg * neg_one_pow n) r sgns))) s) of
                              Inl e \<Rightarrow> Inl e
                            | Inr flmn2 \<Rightarrow>
                                forward_loop T fban L N L_lower sampling True nside sgns
                                  n_start_ind flmn2 rest))
               else forward_loop T fban L N L_lower sampling True nside sgns n_start_ind flmn1 rest) = Inr R"
    by (auto split: sum.splits if_splits)
  have sh1: "has_shape3 a b c flmn1" using set_last_spec(1)[OF s1 shA a0 b0] .
  obtain q1 where q1: "py_index c (N - 1 + n) = Inr q1" "q1 < c"
    and v1: "\<And>i j t. i < a \<Longrightarrow> j < b \<Longrightarrow> t < c \<Longrightarrow>
               flmn1 ! i ! j ! t = (if t = q1 then map (map (\<lambda>x. neg_one_pow n * x)) flm ! i ! j else A ! i ! j ! t)"
    using set_last_spec(2)[OF s1 shA a0 b0] by blast
  have q1n: "q1 = nat (N - 1 + n)" using py_index_nonneg[OF q1(1)] n by simp
  show ?thesis
  proof (cases "n = 0")
    case True
    then have "forward_loop T fban L N L_lower sampling True nside sgns n_start_ind flmn1 rest = Inr R"
      using rest by simp
    moreover have "\<forall>i<a. \<forall>j<b. \<forall>t<c. t \<noteq> nat (N - 1 + n) \<and> t \<noteq> nat (N - 1 - n)
                     \<longrightarrow> flmn1 ! i ! j ! t = A ! i ! j ! t"
      using v1 q1n by simp
    ultimately show ?thesis using sh1 True unfolding a_def b_def c_def by (intro exI[of _ flmn1]) simp
  next
    case False
    then have n1: "1 \<le> n" using n by simp
    from rest False obtain S flmn2 where
      g: "get_last flmn1 (N - 1 + n) = Inr S"
      and s2: "set_last flmn1 (N - 1 - n)
                 (map (\<lambda>r. map cnj (rev (map2 (\<lambda>x sg. x * sg * neg_one_pow n) r sgns))) S) = Inr flmn2"
      and cont: "forward_loop T fban L N L_lower sampling True nside sgns n_start_ind flmn2 rest = Inr R"
      by (auto split: sum.splits)
    obtain q1' where q1': "py_index c (N - 1 + n) = Inr q1'"
      and S2: "has_shape2 a b S"
      and Sv: "\<And>i j. i < a \<Longrightarrow> j < b \<Longrightarrow> S ! i ! j = flmn1 ! i ! j ! q1'"
      using get_last_spec[OF g sh1 a0 b0] by blast
    have q1eq: "q1' = q1" using q1 q1' by simp
    have sh2: "has_shape3 a b c flmn2" using set_last_spec(1)[OF s2 sh1 a0 b0] .
    obtain q2 where q2: "py_index c (N - 1 - n) = Inr q2" "q2 < c"
      and v2: "\<And>i j t. i < a \<Longrightarrow> j < b \<Longrightarrow> t < c \<Longrightarrow>
               flmn2 ! i ! j ! t =
                 (if t = q2 then map (\<lambda>r. map cnj (rev (map2 (\<lambda>x sg. x * sg * neg_one_pow n) r sgns))) S ! i ! j
                  else flmn1 ! i ! j ! t)"
      using set_last_spec(2)[OF s2 sh1 a0 b0] by blast
    have q2n: "q2 = nat (N - 1 - n)" using py_index_nonneg[OF q2(1)] n by simp
    have ne: "q1 \<noteq> q2" using q1n q2n n1 n by auto
    have lsg: "length sgns = b" using L by (simp add: sg b_def)
    have sgv: "sgns ! nat (L - 1 + m) = neg_one_pow \<bar>m\<bar>" if "\<bar>m\<bar> \<le> L - 1" for m
    proof -
      have "[- L + 1..L - 1] ! nat (L - 1 + m) = - L + 1 + int (nat (L - 1 + m))"
        using that by (intro nth_upto) auto
      then have "[- L + 1..L - 1] ! nat (L - 1 + m) = m" using that by simp
      moreover have "nat (L - 1 + m) < length [- L + 1..L - 1]"
      proof -
        have "length [- L + 1..L - 1] = nat (2 * L - 1)" by simp
        then show ?thesis using that by linarith
      qed
      ultimately show ?thesis by (simp add: sg)
    qed
    have frame: "\<forall>i<a. \<forall>j<b. \<forall>t<c. t \<noteq> nat (N - 1 + n) \<and> t \<noteq> nat (N - 1 - n)
                     \<longrightarrow> flmn2 ! i ! j ! t = A ! i ! j ! t"
      using v1 v2 q1n q2n by simp
    have sym: "flmn2 ! nat l ! nat (L - 1 - m) ! nat (N - 1 - n) =
                 neg_one_pow (m + n) * cnj (flmn2 ! nat l ! nat (L - 1 + m) ! nat (N - 1 + n))"
      if lm: "0 \<le> l" "l < L" "\<bar>m\<bar> \<le> L - 1" for l m
    proof -
      define i where "i = nat l"
      define j where "j = nat (L - 1 - m)"
      define j' where "j' = nat (L - 1 + m)"
      have i: "i < a" using lm by (simp add: i_def a_def)
      have j: "j < b" and j': "j' < b" using lm L unfolding j_def j'_def b_def by linarith+
      have jj: "b - 1 - j = j'" using lm L unfolding j_def j'_def b_def by linarith
      have rowS: "length (S ! i) = b" using has_shape2_nth[OF S2 i] .
      have lS: "length S = a" using S2 by (simp add: has_shape2_def)
      have "flmn2 ! i ! j ! q2 =
            map (\<lambda>r. map cnj (rev (map2 (\<lambda>x sg. x * sg * neg_one_pow n) r sgns))) S ! i ! j"
        using v2[OF i j q2(2)] by simp
      also have "\<dots> = cnj (rev (map2 (\<lambda>x sg. x * sg * neg_one_pow n) (S ! i) sgns) ! j)"
        using i j lS rowS lsg by simp
      also have "rev (map2 (\<lambda>x sg. x * sg * neg_one_pow n) (S ! i) sgns) ! j =
                 map2 (\<lambda>x sg. x * sg * neg_one_pow n) (S ! i) sgns ! j'"
        using j rowS lsg jj by (simp add: rev_nth)
      also have "\<dots> = S ! i ! j' * sgns ! j' * neg_one_pow n"
        using j' rowS lsg by simp
      also have "S ! i ! j' = flmn1 ! i ! j' ! q1" using Sv[OF i j'] q1eq by simp
      also have "flmn1 ! i ! j' ! q1 = flmn2 ! i ! j' ! q1" using v2[OF i j' q1(2)] ne by simp
      also have "sgns ! j' = neg_one_pow \<bar>m\<bar>" using sgv[OF lm(3)] by (simp add: j'_def)
      finally have "flmn2 ! i ! j ! q2 =
                    cnj (flmn2 ! i ! j' ! q1 * neg_one_pow \<bar>m\<bar> * neg_one_pow n)" .
      then have "flmn2 ! i ! j ! q2 = neg_one_pow (m + n) * cnj (flmn2 ! i ! j' ! q1)"
        by (simp add: cnj_neg_one_pow neg_one_pow_abs_add[symmetric] mult_ac)
      then show ?thesis by (simp add: i_def j_def j'_def q1n q2n)
    qed
    show ?thesis
      using cont sh2 frame sym unfolding a_def b_def c_def by (intro exI[of _ flmn2]) blast
  qed
qed


lemma forward_loop_sym:
  assumes "forward_loop T fban L N L_lower sampling True nside sgns n_start_ind A [k..N - 1] = Inr R"
    and "has_shape3 (nat L) (nat (2 * L - 1)) (nat (2 * N - 1)) A"
    and "1 \<le> L" "0 \<le> k"
    and "sgns = map (\<lambda>j. neg_one_pow \<bar>j\<bar>) [- L + 1..L - 1]"
    and "\<forall>n. 1 \<le> n \<and> n < k \<longrightarrow> conj_sym L N A n"
  shows "has_shape3 (nat L) (nat (2 * L - 1)) (nat (2 * N - 1)) R \<and>
         (\<forall>n. 1 \<le> n \<and> n \<le> N - 1 \<longrightarrow> conj_sym L N R n)"
  using assms
proof (induction "nat (N - k)" arbitrary: k A)
  case 0
  then have "[k..N - 1] = []" by simp
  then have "R = A" using "0.prems"(1) by simp
  moreover have "\<forall>n. 1 \<le> n \<and> n \<le> N - 1 \<longrightarrow> n < k" using 0 by auto
  ultimately show ?case using "0.prems" by blast
next
  case (Suc d)
  then have kN: "k \<le> N - 1" by linarith
  then have up: "[k..N - 1] = k # [k + 1..N - 1]" by (rule upto_rec1)
  note L = \<open>1 \<le> L\<close>
  from forward_step[OF Suc.prems(2) L Suc.prems(4) kN Suc.prems(5) Suc.prems(1)[unfolded up]]
  obtain A2 where
    run2: "forward_loop T fban L N L_lower sampling True nside sgns n_start_ind A2 [k + 1..N - 1] = Inr R"
    and sh2: "has_shape3 (nat L) (nat (2 * L - 1)) (nat (2 * N - 1)) A2"
    and frame: "\<And>i j t. i < nat L \<Longrightarrow> j < nat (2 * L - 1) \<Longrightarrow> t < nat (2 * N - 1) \<Longrightarrow>
              t \<noteq> nat (N - 1 + k) \<Longrightarrow> t \<noteq> nat (N - 1 - k) \<Longrightarrow> A2 ! i ! j ! t = A ! i ! j ! t"
    and symk: "1 \<le> k \<Longrightarrow> conj_sym L N A2 k"
    unfolding conj_sym_def by blast
  have inv2: "\<forall>n. 1 \<le> n \<and> n < k + 1 \<longrightarrow> conj_sym L N A2 n"
  proof (intro allI impI)
    fix n assume n: "1 \<le> n \<and> n < k + 1"
    show "conj_sym L N A2 n"
    proof (cases "n = k")
      case True
      then show ?thesis using symk n by simp
    next
      case False
      then have nk: "n < k" using n by simp
      then have old: "conj_sym L N A n" using Suc.prems(6) n by simp
      show ?thesis unfolding conj_sym_def
      proof (intro allI impI)
        fix l m assume lm: "0 \<le> l \<and> l < L \<and> \<bar>m\<bar> \<le> L - 1"
        have i: "nat l < nat L" using lm by linarith
        have j1: "nat (L - 1 - m) < nat (2 * L - 1)" and j2: "nat (L - 1 + m) < nat (2 * L - 1)"
          using lm by linarith+
        have t1: "nat (N - 1 - n) < nat (2 * N - 1)" and t2: "nat (N - 1 + n) < nat (2 * N - 1)"
          using n nk kN by linarith+
        have d1: "nat (N - 1 - n) \<noteq> nat (N - 1 + k)" "nat (N - 1 - n) \<noteq> nat (N - 1 - k)"
          using n nk kN by linarith+
        have d2: "nat (N - 1 + n) \<noteq> nat (N - 1 + k)" "nat (N - 1 + n) \<noteq> nat (N - 1 - k)"
          using n nk kN by linarith+
        have "A2 ! nat l ! nat (L - 1 - m) ! nat (N - 1 - n) = A ! nat l ! nat (L - 1 - m) ! nat (N - 1 - n)"
          using frame[OF i j1 t1 d1] .
        moreover have "A2 ! nat l ! nat (L - 1 + m) ! nat (N - 1 + n) = A ! nat l ! nat (L - 1 + m) ! nat (N - 1 + n)"
          using frame[OF i j2 t2 d2] .
        ultimately show "A2 ! nat l ! nat (L - 1 - m) ! nat (N - 1 - n) =
                neg_one_pow (m + n) * cnj (A2 ! nat l ! nat (L - 1 + m) ! nat (N - 1 + n))"
          using old lm unfolding conj_sym_def by simp
      qed
    qed
  qed
  have d: "d = nat (N - (k + 1))" using Suc.hyps(2) by linarith
  show ?case
    by (rule Suc.hyps(1)[OF d run2 sh2 L _ Suc.prems(5) inv2]) (use Suc.prems(4) in simp)
qed

text \<open>
  Claim C6.  The claim is about the array that \<open>forward\<close> returns with \<open>reality=True\<close>.  The
  loop of \<open>forward\<close> fills the slices of the negative orders as the claim says, but
  \<open>forward\<close> does not reach it: at \<open>L = 2\<close>, \<open>N = 2\<close>, \<open>sampling = "mw"\<close>, \<open>reality=True\<close> and
  the array of zeros of shape \<open>(2, 3, 3)\<close>, the shape that \<open>f_shape(2, 2, "mw")\<close> gives, the
  call of \<open>f_shape\<close> inside the assertion raises \<open>TypeError\<close>, whatever the spin-spherical
  transforms are, and no array is returned.
\<close>

theorem forward_reality_raises:
  "f_shape 2 2 ''mw'' = Inr (shape3 (replicate 2 (replicate 3 (replicate 3 (0 :: complex))))) \<and>
   wigner_forward T (replicate 2 (replicate 3 (replicate 3 0))) 2 2 0 ''mw'' True None =
     Inl (TypeError ''f_shape() takes from 2 to 3 positional arguments but 4 were given'')"
  by (simp add: wigner_forward_raises shape3_def f_shape_def nbeta_def nalpha_def ngamma_def
      lower_def lower_char_def)


section \<open>Axis order of the signal on the rotation group\<close>






section \<open>Reality with nonzero spin in the kernel construction\<close>

lemma list_all_update: "list_all P xs \<Longrightarrow> P x \<Longrightarrow> list_all P (xs[i := x])"
  by (induction xs arbitrary: i) (auto split: nat.splits)

lemma kernel_degrees_rows:
  assumes "kernel_degrees E L spin reality m_start_ind d theta plane els = Inr plane'"
    and "list_all (\<lambda>row. length row = d) plane"
  shows "list_all (\<lambda>row. length row = d) plane'"
  using assms
proof (induction els arbitrary: plane)
  case Nil
  then show ?case by simp
next
  case (Cons el els)
  from Cons.prems(1) obtain sl where
    r: "kernel_degrees E L spin reality m_start_ind d theta
          (plane[nat el := map (\<lambda>x. x * sqrt ((2 * real_of_int el + 1) / (4 * pi)))
             (if length (drop (norm_slice (length sl) m_start_ind) sl) = d
              then drop (norm_slice (length sl) m_start_ind) sl
              else replicate d (drop (norm_slice (length sl) m_start_ind) sl ! 0))]) els = Inr plane'"
    by (auto simp: Let_def split: sum.splits if_splits)
  show ?case
  proof (rule Cons.IH[OF r])
    show "list_all (\<lambda>row. length row = d)
           (plane[nat el := map (\<lambda>x. x * sqrt ((2 * real_of_int el + 1) / (4 * pi)))
             (if length (drop (norm_slice (length sl) m_start_ind) sl) = d
              then drop (norm_slice (length sl) m_start_ind) sl
              else replicate d (drop (norm_slice (length sl) m_start_ind) sl ! 0))])"
      by (rule list_all_update[OF Cons.prems(2)]) simp
  qed
qed

lemma kernel_rings_rows:
  assumes "kernel_rings E L spin reality m_start_ind d dl ts = Inr dl'"
    and "list_all (list_all (\<lambda>row. length row = d)) dl"
    and "\<forall>(t, theta) \<in> set ts. t < length dl"
  shows "list_all (list_all (\<lambda>row. length row = d)) dl' \<and> length dl' = length dl"
  using assms
proof (induction ts arbitrary: dl)
  case Nil
  then show ?case by simp
next
  case (Cons a ts)
  obtain t theta where a: "a = (t, theta)" by (cases a)
  from Cons.prems(1) a obtain plane where
    p: "kernel_degrees E L spin reality m_start_ind d theta (dl ! t) [\<bar>spin\<bar>..L - 1] = Inr plane"
    and r: "kernel_rings E L spin reality m_start_ind d (dl[t := plane]) ts = Inr dl'"
    by (auto split: sum.splits)
  have t: "t < length dl" using Cons.prems(3) a by auto
  then have "list_all (\<lambda>row. length row = d) (dl ! t)"
    using Cons.prems(2) by (simp add: list_all_length)
  then have pl: "list_all (\<lambda>row. length row = d) plane" using kernel_degrees_rows[OF p] by simp
  have "list_all (list_all (\<lambda>row. length row = d)) (dl[t := plane])"
    by (rule list_all_update[OF Cons.prems(2) pl])
  moreover have "\<forall>(t, theta) \<in> set ts. t < length (dl[t := plane])"
    using Cons.prems(3) by auto
  ultimately show ?case using Cons.IH[OF r] by simp
qed

lemma zeros3_rows:
  assumes "zeros3 (a, b, c) = Inr z"
  shows "list_all (list_all (\<lambda>row. length row = nat c)) z \<and> length z = nat a"
  using assms by (auto simp: zeros3_def list_all_length split: if_splits)

lemma kernel_body_m_dim:
  assumes "kernel_body E L spin reality sampling nside forward = Inr k"
  shows "kernel_m_dim k (nat (if reality then L else 2 * L - 1))"
proof -
  define d where "d = nat (if reality then L else 2 * L - 1)"
  define ms where "ms = (if reality then L - 1 else 0)"
  define s1 where "s1 = (if forward \<and> lower sampling \<in> set [''mw'', ''mwss''] then ''mwss'' else sampling)"
  from assms obtain ths z dl dl1 where
    z: "zeros3 (int (length ths), L, (if reality then L else 2 * L - 1)) = Inr z"
    and kr: "kernel_rings E L spin reality ms d z (zip [0..<length ths] ths) = Inr dl"
    and w: "(if forward then
              (case quad_weights_transform E L s1 0 nside of
                 Inl e \<Rightarrow> Inl e
               | Inr w \<Rightarrow>
                   if length w \<noteq> length dl then Inl operands_mismatch
                   else Inr (map2 (\<lambda>plane wt. map (map (\<lambda>x. x * wt)) plane) dl w))
            else Inr dl) = Inr dl1"
    and fin: "(if lower s1 = ''healpix'' then
                (case healpix_phase_shifts E L nside forward of
                   Inl e \<Rightarrow> Inl e
                 | Inr ph \<Rightarrow>
                     let ph1 = map (\<lambda>r. drop (norm_slice (length r) ms) r) ph
                     in if length ph1 \<noteq> length dl1 \<or> \<not> list_all (\<lambda>r. length r = d) ph1
                        then Inl operands_mismatch
                        else Inr (ComplexKernel
                               (map2 (\<lambda>plane pr.
                                  map (\<lambda>row. map2 (\<lambda>x p. complex_of_real x * p) row pr) plane)
                                  dl1 ph1)))
              else Inr (RealKernel dl1)) = Inr k"
    unfolding kernel_body_def Let_def d_def ms_def s1_def
    by (auto split: sum.splits)
  have z0: "list_all (list_all (\<lambda>row. length row = d)) z" "length z = length ths"
    using zeros3_rows[OF z] by (auto simp: d_def)
  have "\<forall>(t, theta) \<in> set (zip [0..<length ths] ths). t < length z"
    using z0(2) by (auto simp: in_set_zip)
  then have dl: "list_all (list_all (\<lambda>row. length row = d)) dl"
    using kernel_rings_rows[OF kr z0(1)] by simp
  have dl1: "list_all (list_all (\<lambda>row. length row = d)) dl1"
    using w dl by (auto simp: list_all_length split: if_splits sum.splits)
  show ?thesis
  proof (cases "lower s1 = ''healpix''")
    case False
    then have "k = RealKernel dl1" using fin by simp
    then show ?thesis using dl1 by (simp add: kernel_m_dim_def d_def)
  next
    case True
    then obtain ph where
      ph: "list_all (\<lambda>r. length r = d) (map (\<lambda>r. drop (norm_slice (length r) ms) r) ph)"
        "length (map (\<lambda>r. drop (norm_slice (length r) ms) r) ph) = length dl1"
      and k: "k = ComplexKernel
                 (map2 (\<lambda>plane pr. map (\<lambda>row. map2 (\<lambda>x p. complex_of_real x * p) row pr) plane)
                    dl1 (map (\<lambda>r. drop (norm_slice (length r) ms) r) ph))"
      using fin by (auto simp: Let_def split: sum.splits if_splits)
    show ?thesis unfolding k kernel_m_dim_def d_def[symmetric]
      using dl1 ph by (auto simp: list_all_length)
  qed
qed

text \<open>
  C9.  With \<open>spin \<noteq> 0\<close> the call with \<open>reality=True\<close> issues the one warning, raises
  nothing of its own, and returns what the call with \<open>reality=False\<close> returns (which
  issues no warning); a kernel it returns has the full \<open>m\<close> axis of \<open>2 * L - 1\<close> entries.
\<close>

theorem reality_with_spin_falls_back:
  assumes "spin \<noteq> 0"
  shows "spin_spherical_kernel E L spin True sampling nside forward =
           ([reality_warning], snd (spin_spherical_kernel E L spin False sampling nside forward)) \<and>
         fst (spin_spherical_kernel E L spin False sampling nside forward) = [] \<and>
         (\<forall>k. snd (spin_spherical_kernel E L spin True sampling nside forward) = Inr k \<longrightarrow>
              kernel_m_dim k (nat (2 * L - 1)))"
  using assms kernel_body_m_dim[of E L spin False sampling nside forward]
  by (auto simp: spin_spherical_kernel_def)

lemma kernel_example:
  "snd (spin_spherical_kernel
     \<lparr>thetas = (\<lambda>L s ns. Inr [1]),
      compute_slice = (\<lambda>theta el L mm r. Inr [1, 2, 3]),
      quad_weights_transform = (\<lambda>L s sp ns. Inr [1]),
      ring_phase_shift_hp = (\<lambda>L t ns fw. Inr [1])\<rparr>
     2 1 True ''mw'' None False) =
   Inr (RealKernel [[[0, 0, 0],
     [sqrt (3 / (4 * pi)), 2 * sqrt (3 / (4 * pi)), 3 * sqrt (3 / (4 * pi))]]])"
  apply (simp add: spin_spherical_kernel_def kernel_body_def Let_def zeros3_def norm_slice_def
      lower_def lower_char_def upto.simps)
  apply (simp add: numeral_3_eq_3 numeral_2_eq_2)
  done

theorem reality_with_spin_falls_back_witness:
  "(1 :: int) \<noteq> 0 \<and>
   spin_spherical_kernel
     \<lparr>thetas = (\<lambda>L s ns. Inr [1]),
      compute_slice = (\<lambda>theta el L mm r. Inr [1, 2, 3]),
      quad_weights_transform = (\<lambda>L s sp ns. Inr [1]),
      ring_phase_shift_hp = (\<lambda>L t ns fw. Inr [1])\<rparr>
     2 1 True ''mw'' None False =
   ([reality_warning],
    snd (spin_spherical_kernel
     \<lparr>thetas = (\<lambda>L s ns. Inr [1]),
      compute_slice = (\<lambda>theta el L mm r. Inr [1, 2, 3]),
      quad_weights_transform = (\<lambda>L s sp ns. Inr [1]),
      ring_phase_shift_hp = (\<lambda>L t ns fw. Inr [1])\<rparr>
     2 1 False ''mw'' None False)) \<and>
   snd (spin_spherical_kernel
     \<lparr>thetas = (\<lambda>L s ns. Inr [1]),
      compute_slice = (\<lambda>theta el L mm r. Inr [1, 2, 3]),
      quad_weights_transform = (\<lambda>L s sp ns. Inr [1]),
      ring_phase_shift_hp = (\<lambda>L t ns fw. Inr [1])\<rparr>
     2 1 True ''mw'' None False) =
   Inr (RealKernel [[[0, 0, 0],
     [sqrt (3 / (4 * pi)), 2 * sqrt (3 / (4 * pi)), 3 * sqrt (3 / (4 * pi))]]]) \<and>
   kernel_m_dim (RealKernel [[[0, 0, 0],
     [sqrt (3 / (4 * pi)), 2 * sqrt (3 / (4 * pi)), 3 * sqrt (3 / (4 * pi))]]]) (nat (2 * 2 - 1))"
  using reality_with_spin_falls_back [of 1
     "\<lparr>thetas = (\<lambda>L s ns. Inr [1]),
      compute_slice = (\<lambda>theta el L mm r. Inr [1, 2, 3]),
      quad_weights_transform = (\<lambda>L s sp ns. Inr [1]),
      ring_phase_shift_hp = (\<lambda>L t ns fw. Inr [1])\<rparr>" 2 "''mw''" None False]
    kernel_example
  by simp


section \<open>Folding in place\<close>

lemma healpix_ifft_rings_rows:
  assumes "healpix_ifft_rings S L nside reality ftm f index ts = Inr (ftm', f')"
    and "distinct ts" "\<forall>t\<in>set ts. t < length ftm"
  shows "length ftm' = length ftm \<and>
         (\<forall>t<length ftm.
            (t \<in> set ts \<and> nphi_ring S (int t) nside \<noteq> 2 * L \<longrightarrow>
               (\<exists>vs vl. spectral_folding (ftm ! t) (nphi_ring S (int t) nside) L = Inr (ftm' ! t, vs, vl))) \<and>
            (t \<notin> set ts \<or> nphi_ring S (int t) nside = 2 * L \<longrightarrow> ftm' ! t = ftm ! t))"
  using assms
proof (induction ts arbitrary: ftm f index)
  case Nil
  then show ?case by simp
next
  case (Cons t0 ts)
  define nphi where "nphi = nphi_ring S (int t0) nside"
  from Cons.prems(1) obtain ftm1 fm_chunk f1 where
    st: "(if nphi = 2 * L then Inr (ftm, ftm ! t0)
          else case spectral_folding (ftm ! t0) nphi L of
              Inl e \<Rightarrow> Inl e
            | Inr (buf, vs, vl) \<Rightarrow> Inr (ftm[t0 := buf], view_of buf vs vl)) = Inr (ftm1, fm_chunk)"
    and r: "healpix_ifft_rings S L nside reality ftm1 f1 (index + nphi) ts = Inr (ftm', f')"
    unfolding nphi_def by (auto simp: Let_def split: sum.splits prod.splits)
  have t0: "t0 < length ftm" "t0 \<notin> set ts" using Cons.prems(2,3) by auto
  have l1: "length ftm1 = length ftm" using st by (auto split: if_splits sum.splits prod.splits)
  have other: "ftm1 ! t = ftm ! t" if "t \<noteq> t0" for t
    using st that by (auto split: if_splits sum.splits prod.splits)
  have self: "nphi \<noteq> 2 * L \<Longrightarrow> \<exists>vs vl. spectral_folding (ftm ! t0) nphi L = Inr (ftm1 ! t0, vs, vl)"
    using st t0(1) by (auto split: if_splits sum.splits prod.splits)
  have self2: "nphi = 2 * L \<Longrightarrow> ftm1 ! t0 = ftm ! t0" using st by auto
  have IH: "length ftm' = length ftm1 \<and>
         (\<forall>t<length ftm1.
            (t \<in> set ts \<and> nphi_ring S (int t) nside \<noteq> 2 * L \<longrightarrow>
               (\<exists>vs vl. spectral_folding (ftm1 ! t) (nphi_ring S (int t) nside) L = Inr (ftm' ! t, vs, vl))) \<and>
            (t \<notin> set ts \<or> nphi_ring S (int t) nside = 2 * L \<longrightarrow> ftm' ! t = ftm1 ! t))"
    by (rule Cons.IH[OF r]) (use Cons.prems(2,3) l1 in auto)
  show ?case
  proof (intro conjI allI impI)
    show "length ftm' = length ftm" using IH l1 by simp
  next
    fix t assume t: "t < length ftm"
      and h: "t \<in> set (t0 # ts) \<and> nphi_ring S (int t) nside \<noteq> 2 * L"
    show "\<exists>vs vl. spectral_folding (ftm ! t) (nphi_ring S (int t) nside) L = Inr (ftm' ! t, vs, vl)"
    proof (cases "t = t0")
      case True
      then have "ftm' ! t0 = ftm1 ! t0" using IH t0 l1 by simp
      then show ?thesis using self h True unfolding nphi_def by simp
    next
      case False
      then show ?thesis using IH h t l1 other[OF False] by auto
    qed
  next
    fix t assume t: "t < length ftm"
      and h: "t \<notin> set (t0 # ts) \<or> nphi_ring S (int t) nside = 2 * L"
    show "ftm' ! t = ftm ! t"
    proof (cases "t = t0")
      case True
      then have "nphi = 2 * L" using h unfolding nphi_def by auto
      moreover have "ftm' ! t0 = ftm1 ! t0" using IH t0 l1 by simp
      ultimately show ?thesis using self2 True by simp
    next
      case False
      then show ?thesis using IH h t l1 other[OF False] by auto
    qed
  qed
qed

lemma healpix_ifft_rows:
  assumes "healpix_ifft S ftm L nside reality = Inr (ftm', f)" "t < length ftm"
    "nphi_ring S (int t) nside \<noteq> 2 * L"
  shows "\<exists>vs vl. spectral_folding (ftm ! t) (nphi_ring S (int t) nside) L = Inr (ftm' ! t, vs, vl)"
proof -
  from assms(1) obtain f0 where
    "healpix_ifft_rings S L nside reality ftm f0 0 [0..<length ftm] = Inr (ftm', f)"
    by (auto simp: healpix_ifft_def split: if_splits sum.splits)
  from healpix_ifft_rings_rows[OF this] assms(2,3) show ?thesis by simp
qed

lemma folding_changes:
  assumes "1 \<le> nphi" "nphi \<le> 2 * L" "L - nphi div 2 + nphi \<le> int (length fm)"
    and "spectral_folding fm nphi L = Inr (buf, vs, vl)"
    and "j < nat nphi" "aliased fm (L - nphi div 2) nphi j \<noteq> 0"
  shows "buf \<noteq> fm"
proof -
  define s where "s = L - nphi div 2"
  have s0: "0 \<le> s" using assms by (simp add: s_def)
  have lt: "nat s + j < length fm" using assms s0 unfolding s_def by linarith
  from spectral_folding_spec[OF assms(1-3)] assms(4)
  have "buf ! (nat s + j) = fm ! (nat s + j) + aliased fm s nphi j"
    using lt assms(5) unfolding s_def by auto
  then show ?thesis using assms(6) unfolding s_def by auto
qed

lemma folding_unchanged:
  assumes "1 \<le> nphi" "nphi \<le> 2 * L" "L - nphi div 2 + nphi \<le> int (length fm)"
    and "spectral_folding fm nphi L = Inr (buf, vs, vl)"
    and "\<forall>j<nat nphi. aliased fm (L - nphi div 2) nphi j = 0"
  shows "buf = fm"
proof -
  from spectral_folding_spec[OF assms(1-3)] assms(4)
  have l: "length buf = length fm"
    and v: "\<forall>i<length fm. buf ! i =
              (if nat (L - nphi div 2) \<le> i \<and> i < nat (L - nphi div 2) + nat nphi
               then fm ! i + aliased fm (L - nphi div 2) nphi (i - nat (L - nphi div 2))
               else fm ! i)"
    by auto
  show ?thesis
  proof (rule nth_equalityI[OF l])
    fix i assume "i < length buf"
    then have i: "i < length fm" using l by simp
    show "buf ! i = fm ! i"
    proof (cases "nat (L - nphi div 2) \<le> i \<and> i < nat (L - nphi div 2) + nat nphi")
      case True
      then have "i - nat (L - nphi div 2) < nat nphi" by linarith
      then have "aliased fm (L - nphi div 2) nphi (i - nat (L - nphi div 2)) = 0"
        using assms(5) by blast
      moreover have "buf ! i = fm ! i + aliased fm (L - nphi div 2) nphi (i - nat (L - nphi div 2))"
        using v i True by auto
      ultimately show ?thesis by simp
    next
      case False
      have "buf ! i = (if nat (L - nphi div 2) \<le> i \<and> i < nat (L - nphi div 2) + nat nphi
               then fm ! i + aliased fm (L - nphi div 2) nphi (i - nat (L - nphi div 2))
               else fm ! i)"
        using v i by blast
      then show ?thesis using False by auto
    qed
  qed
qed

text \<open>
  Claim C10 (as the code has it).  When the window \<open>L - nphi // 2 .. L - nphi // 2 + nphi - 1\<close> lies inside \<open>fm\<close>
  (with \<open>1 \<le> nphi \<le> 2 * L\<close>), \<open>spectral_folding\<close> returns the view of that window into the
  caller's array, and the caller's array holds, in the window, its old entries plus the
  entries from outside the window that alias to them modulo \<open>nphi\<close>; the cells outside the
  window keep their values.  So the caller's array differs from what it was exactly when
  one of these sums is not zero.  In \<open>healpix_ifft\<close>, whenever it returns, every row \<open>t\<close> of the
  caller's \<open>ftm\<close> whose ring has \<open>nphi \<noteq> 2 * L\<close> is the array that \<open>spectral_folding\<close> left.
\<close>

theorem spectral_folding_in_place:
  assumes "1 \<le> nphi" "nphi \<le> 2 * L" "L - nphi div 2 + nphi \<le> int (length fm)"
  shows "\<exists>buf. spectral_folding fm nphi L = Inr (buf, nat (L - nphi div 2), nat nphi) \<and>
           length buf = length fm \<and>
           (\<forall>i<length fm. buf ! i =
              (if nat (L - nphi div 2) \<le> i \<and> i < nat (L - nphi div 2) + nat nphi
               then fm ! i + aliased fm (L - nphi div 2) nphi (i - nat (L - nphi div 2))
               else fm ! i)) \<and>
           (buf \<noteq> fm) = (\<exists>j<nat nphi. aliased fm (L - nphi div 2) nphi j \<noteq> 0) \<and>
           (\<forall>S ftm ftm' f nside reality t.
              healpix_ifft S ftm L nside reality = Inr (ftm', f) \<and> t < length ftm \<and>
              nphi_ring S (int t) nside \<noteq> 2 * L \<longrightarrow>
              (\<exists>vs vl. spectral_folding (ftm ! t) (nphi_ring S (int t) nside) L = Inr (ftm' ! t, vs, vl)))"
proof -
  obtain buf where b: "spectral_folding fm nphi L = Inr (buf, nat (L - nphi div 2), nat nphi)"
    and l: "length buf = length fm"
    and v: "\<forall>i<length fm. buf ! i =
              (if nat (L - nphi div 2) \<le> i \<and> i < nat (L - nphi div 2) + nat nphi
               then fm ! i + aliased fm (L - nphi div 2) nphi (i - nat (L - nphi div 2))
               else fm ! i)"
    using spectral_folding_spec[OF assms] by blast
  have "buf \<noteq> fm" if "\<exists>j<nat nphi. aliased fm (L - nphi div 2) nphi j \<noteq> 0"
    using that folding_changes[OF assms b] by blast
  moreover have "buf = fm" if "\<forall>j<nat nphi. aliased fm (L - nphi div 2) nphi j = 0"
    using folding_unchanged[OF assms b that] .
  ultimately have c: "(buf \<noteq> fm) = (\<exists>j<nat nphi. aliased fm (L - nphi div 2) nphi j \<noteq> 0)"
    by blast
  show ?thesis using b l v c healpix_ifft_rows by blast
qed

lemma folding_example: "spectral_folding [1, 2, 3, 4] 2 2 = Inr ([1, 6, 4, 4], 1, 2)"
  by (simp add: spectral_folding_def norm_slice_def py_index_def fold_lower.simps fold_upper.simps)

lemma healpix_ifft_example:
  "healpix_ifft \<lparr>ftm_shape = (\<lambda>L ns. (1, 2 * L)), nphi_ring = (\<lambda>t ns. 2), hp_f_shape = (\<lambda>ns. 2)\<rparr>
     [[1, 2, 3, 4]] 2 1 False = Inr ([[1, 6, 4, 4]], [10, - 2])"
  by (simp add: healpix_ifft_def zeros1_def folding_example view_of_def ifft_forward_def ifftshift_def
      dft_def assign_slice_def norm_slice_def numeral_2_eq_2)

theorem spectral_folding_in_place_witness:
  "(1 :: int) \<le> 2 \<and> (2 :: int) \<le> 2 * 2 \<and> 2 - 2 div 2 + 2 \<le> int (length [1, 2, 3, 4 :: complex]) \<and>
   spectral_folding [1, 2, 3, 4] 2 2 = Inr ([1, 6, 4, 4], 1, 2) \<and>
   (0 :: nat) < nat 2 \<and> aliased [1, 2, 3, 4] (2 - 2 div 2) 2 0 \<noteq> 0 \<and>
   [1, 6, 4, 4] \<noteq> [1, 2, 3, 4 :: complex] \<and>
   healpix_ifft \<lparr>ftm_shape = (\<lambda>L ns. (1, 2 * L)), nphi_ring = (\<lambda>t ns. 2), hp_f_shape = (\<lambda>ns. 2)\<rparr>
     [[1, 2, 3, 4]] 2 1 False = Inr ([[1, 6, 4, 4]], [10, - 2]) \<and>
   (0 :: nat) < length [[1, 2, 3, 4 :: complex]] \<and>
   nphi_ring \<lparr>ftm_shape = (\<lambda>L ns. (1, 2 * L)), nphi_ring = (\<lambda>t ns. 2), hp_f_shape = (\<lambda>ns. 2)\<rparr>
     (int 0) 1 \<noteq> 2 * 2 \<and>
   spectral_folding ([[1, 2, 3, 4]] ! 0) 2 2 = Inr ([[1, 6, 4, 4]] ! 0, 1, 2)"
proof -
  have a: "aliased [1, 2, 3, 4] (2 - 2 div 2) 2 0 = 4"
    by (simp add: aliased_def numeral_eq_Suc)
  show ?thesis
    using spectral_folding_in_place [of 2 2 "[1, 2, 3, 4]"] folding_example healpix_ifft_example a
    by simp
qed

text \<open>
  The claim has the caller's array modified for every \<open>fm\<close> longer than \<open>nphi\<close>.  With
  \<open>nphi = 2\<close> and \<open>L = 2\<close> the array \<open>[0, 5, 6, 0]\<close> comes back as it was, since the entries
  outside the window are zero; and with \<open>nphi = 2\<close> and \<open>L = 3\<close> the window of \<open>[1, 2, 3]\<close> has
  one cell only, and the first store raises \<open>IndexError\<close>.
\<close>

theorem spectral_folding_in_place_counterexample:
  "(2 :: int) < int (length [0, 5, 6, 0 :: complex]) \<and>
   spectral_folding [0, 5, 6, 0] 2 2 = Inr ([0, 5, 6, 0], 1, 2) \<and>
   (2 :: int) < int (length [1, 2, 3 :: complex]) \<and>
   spectral_folding [1, 2, 3] 2 3 = Inl IndexError"
  by (simp add: spectral_folding_def norm_slice_def py_index_def fold_lower.simps fold_upper.simps)


section \<open>The reality paths of the HEALPix FFTs\<close>

lemma slice_of_full:
  assumes "0 \<le> index" "0 \<le> nphi" "index + nphi \<le> int (length f)"
  shows "length (slice_of f index (index + nphi)) = nat nphi"
  using assms by (simp add: slice_of_def norm_slice_def Let_def)

lemma rfft_chunk_ok:
  assumes "0 \<le> index" "0 < nphi" "index + nphi \<le> int (length f)" "nphi = 2 * L"
  shows "\<exists>c. rfft_chunk f index nphi = Inr c"
proof -
  define n where "n = nat nphi"
  have n: "n = 2 * nat L" "0 < n" using assms by (auto simp: n_def)
  have ls: "length (slice_of f index (index + nphi)) = n"
    using slice_of_full[of index nphi f] assms by (simp add: n_def)
  then have ne: "map Re (slice_of f index (index + nphi)) \<noteq> []" using n by auto
  have lr: "length (butlast (take (n div 2 + 1) (dft (- 1) (map complex_of_real (map Re (slice_of f index (index + nphi))))))) = n div 2"
    using ls by simp
  have z: "zeros1 nphi = Inr (replicate n (0 :: complex))" using assms by (simp add: zeros1_def n_def)
  have d: "nat (nphi div 2) = n div 2" using assms by (simp add: n_def nat_div_distrib)
  have vs: "norm_slice n (nphi div 2) = n div 2" using assms d by (simp add: norm_slice_def n_def)
  have ve: "norm_slice n (int n) = n" by (simp add: norm_slice_def)
  have vl: "max (n div 2) n - n div 2 = n div 2" using n by simp
  have lb: "min n (Suc (n div 2)) - Suc 0 = n div 2" using n by auto
  show ?thesis
    using ne z vs ve vl lb
    by (simp add: rfft_chunk_def rfft_backward_def assign_slice_def Let_def ls)
qed

lemma rfft_chunk_empty:
  "rfft_chunk f index 0 = Inl invalid_fft_points"
  by (simp add: rfft_chunk_def zeros1_def slice_of_def rfft_backward_def Let_def)

lemma slice_of_empty: "slice_of f index index = []"
  by (simp add: slice_of_def Let_def)

lemma healpix_fft_rings_reality:
  assumes "0 \<le> index" "\<forall>t\<in>set ts. 0 \<le> nphi_ring S (int t) nside"
    "index + sum_list (map (\<lambda>t. nphi_ring S (int t) nside) ts) \<le> int (length f)"
  shows "healpix_fft_rings S f L nside True ftm index ts = healpix_fft_rings S f L nside False ftm index ts"
  using assms
proof (induction ts arbitrary: ftm index)
  case Nil
  then show ?case by simp
next
  case (Cons t ts)
  define nphi where "nphi = nphi_ring S (int t) nside"
  have n0: "0 \<le> nphi" using Cons.prems(2) by (simp add: nphi_def)
  have rest0: "0 \<le> sum_list (map (\<lambda>t. nphi_ring S (int t) nside) ts)"
    using Cons.prems(2) by (intro sum_list_nonneg) auto
  have fit: "index + nphi \<le> int (length f)" using Cons.prems(3) rest0 by (simp add: nphi_def)
  have IH: "healpix_fft_rings S f L nside True ftm1 (index + nphi) ts =
            healpix_fft_rings S f L nside False ftm1 (index + nphi) ts" for ftm1
    by (rule Cons.IH) (use Cons.prems n0 in \<open>auto simp: nphi_def algebra_simps\<close>)
  show ?case
  proof (cases "nphi = 2 * L")
    case False
    then show ?thesis by (simp add: nphi_def[symmetric] Let_def IH split: sum.splits)
  next
    case True
    show ?thesis
    proof (cases "nphi = 0")
      case Z: True
      then show ?thesis using True
        by (simp add: nphi_def[symmetric] Let_def rfft_chunk_empty slice_of_empty fft_backward_def
            invalid_fft_points_def)
    next
      case False
      then have "0 < nphi" using n0 by simp
      from rfft_chunk_ok[OF Cons.prems(1) this fit True] obtain c where "rfft_chunk f index nphi = Inr c" ..
      then show ?thesis using True
        by (simp add: nphi_def[symmetric] Let_def IH[unfolded True] split: sum.splits)
    qed
  qed
qed

lemma healpix_fft_reality:
  assumes "\<forall>t<nat (fst (ftm_shape S L nside)). 0 \<le> nphi_ring S (int t) nside"
    and "(\<Sum>t<nat (fst (ftm_shape S L nside)). nphi_ring S (int t) nside) \<le> int (length f)"
  shows "healpix_fft S f L nside True = healpix_fft S f L nside False"
proof (cases "L \<ge> 2 * nside")
  case False
  then show ?thesis by (simp add: healpix_fft_def)
next
  case True
  show ?thesis
  proof (cases "zeros2 (ftm_shape S L nside) :: error + arr2")
    case (Inl e)
    then show ?thesis by (simp add: healpix_fft_def)
  next
    case (Inr ftm)
    then have len: "length ftm = nat (fst (ftm_shape S L nside))"
      by (auto simp: zeros2_def split: prod.splits if_splits)
    have s: "sum_list (map (\<lambda>t. nphi_ring S (int t) nside) [0..<length ftm]) =
             (\<Sum>t<length ftm. nphi_ring S (int t) nside)"
      by (simp add: interv_sum_list_conv_sum_set_nat atLeast0LessThan)
    have "healpix_fft_rings S f L nside True ftm 0 [0..<length ftm] =
          healpix_fft_rings S f L nside False ftm 0 [0..<length ftm]"
      by (rule healpix_fft_rings_reality) (use assms len s in auto)
    then show ?thesis using True Inr by (simp add: healpix_fft_def)
  qed
qed

lemma cis_reflect:
  assumes "0 < l" "k \<le> 2 * l"
  shows "cis (2 * pi * real j * real (2 * l - k) / real (2 * l)) =
         cnj (cis (2 * pi * real j * real k / real (2 * l)))"
proof -
  define A where "A = 2 * pi * real j"
  define B where "B = 2 * pi * real j * real k / real (2 * l)"
  have "2 * pi * real j * real (2 * l - k) / real (2 * l) = A + (- B)"
    using assms by (simp add: A_def B_def of_nat_diff field_simps)
  then have "cis (2 * pi * real j * real (2 * l - k) / real (2 * l)) = cis (A + (- B))"
    by (simp only:)
  also have "\<dots> = cis A * cis (- B)" by (simp only: cis_mult)
  also have "cis A = 1" unfolding A_def by (rule cis_multiple_2pi) simp
  finally show ?thesis by (simp add: cis_cnj B_def)
qed

lemma hermitian_sum:
  fixes r :: "complex list"
  assumes l: "0 < l" and len: "length r = 2 * l" and ny: "r ! 0 = 0"
    and herm: "\<forall>k<l. r ! (l - k) = cnj (r ! (l + k))"
  shows "(\<Sum>k = 0..<2 * l. rotate l r ! k * cis (1 * 2 * pi * real j * real k / real (2 * l))) =
         complex_of_real (Re (r ! l)
           + (\<Sum>k = 1..<l. 2 * Re (r ! (l + k) * cis (2 * pi * real j * real k / real (2 * l)))))"
proof -
  define w where "w k = cis (2 * pi * real j * real k / real (2 * l))" for k
  define z where "z k = r ! (l + k) * w k" for k
  have rot: "rotate l r ! k = r ! ((l + k) mod (2 * l))" if "k < 2 * l" for k
    using that len by (simp add: nth_rotate)
  have "(\<Sum>k = 0..<2 * l. rotate l r ! k * cis (1 * 2 * pi * real j * real k / real (2 * l))) =
        (\<Sum>k = 0..<2 * l. r ! ((l + k) mod (2 * l)) * w k)"
    by (intro sum.cong refl) (simp add: rot w_def)
  also have "\<dots> = (\<Sum>k = 0..<l. r ! ((l + k) mod (2 * l)) * w k)
                  + (\<Sum>k = l..<2 * l. r ! ((l + k) mod (2 * l)) * w k)"
    by (rule sum.atLeastLessThan_concat[symmetric]) auto
  also have "(\<Sum>k = 0..<l. r ! ((l + k) mod (2 * l)) * w k) = (\<Sum>k = 0..<l. z k)"
    by (intro sum.cong refl) (simp add: z_def)
  also have "(\<Sum>k = l..<2 * l. r ! ((l + k) mod (2 * l)) * w k) = (\<Sum>k = l..<2 * l. r ! (k - l) * w k)"
  proof (intro sum.cong refl)
    fix k assume "k \<in> {l..<2 * l}"
    then have k: "l \<le> k" "k < 2 * l" by auto
    have "l + k = (k - l) + 2 * l" using k by auto
    then have "(l + k) mod (2 * l) = (k - l) mod (2 * l)" by (metis mod_add_self2)
    also have "\<dots> = k - l" using k by (intro mod_less) auto
    finally have "(l + k) mod (2 * l) = k - l" .
    then show "r ! ((l + k) mod (2 * l)) * w k = r ! (k - l) * w k" by simp
  qed
  also have "(\<Sum>k = l..<2 * l. r ! (k - l) * w k) = (\<Sum>k = 1..l. r ! (l - k) * cnj (w k))"
  proof (rule sum.reindex_bij_witness[of _ "\<lambda>k. 2 * l - k" "\<lambda>k. 2 * l - k"])
    fix k assume k: "k \<in> {l..<2 * l}"
    show "2 * l - (2 * l - k) = k" using k by auto
    show "2 * l - k \<in> {1..l}" using k by auto
    have "w (2 * l - (2 * l - k)) = cnj (w (2 * l - k))"
      unfolding w_def by (rule cis_reflect) (use l k in auto)
    moreover have "2 * l - (2 * l - k) = k" using k by auto
    moreover have "l - (2 * l - k) = k - l" using k by auto
    ultimately show "r ! (l - (2 * l - k)) * cnj (w (2 * l - k)) = r ! (k - l) * w k" by simp
  next
    fix k assume k: "k \<in> {1..l}"
    show "2 * l - (2 * l - k) = k" using k by auto
    show "2 * l - k \<in> {l..<2 * l}" using k by auto
  qed
  also have "(\<Sum>k = 1..l. r ! (l - k) * cnj (w k)) = (\<Sum>k = 1..<l. r ! (l - k) * cnj (w k))"
  proof -
    have "{1..l} = insert l {1..<l}" using l by auto
    then show ?thesis using ny by simp
  qed
  also have "(\<Sum>k = 1..<l. r ! (l - k) * cnj (w k)) = (\<Sum>k = 1..<l. cnj (z k))"
    by (intro sum.cong refl) (use herm in \<open>simp add: z_def\<close>)
  also have "(\<Sum>k = 0..<l. z k) = r ! l + (\<Sum>k = 1..<l. z k)"
    using l by (simp add: sum.atLeast_Suc_lessThan z_def w_def)
  finally have "(\<Sum>k = 0..<2 * l. rotate l r ! k * cis (1 * 2 * pi * real j * real k / real (2 * l))) =
                r ! l + (\<Sum>k = 1..<l. z k + cnj (z k))"
    by (simp add: sum.distrib)
  moreover have "r ! l = complex_of_real (Re (r ! l))"
  proof -
    have "r ! l = cnj (r ! l)" using herm l by (auto dest: spec[of _ 0])
    then have "Im (r ! l) = Im (cnj (r ! l))" by simp
    then have "Im (r ! l) = 0" by simp
    then show ?thesis by (simp add: complex_eq_iff)
  qed
  moreover have "(\<Sum>k = 1..<l. z k + cnj (z k)) = complex_of_real (\<Sum>k = 1..<l. 2 * Re (z k))"
    by (simp add: complex_add_cnj)
  ultimately show ?thesis by (simp add: z_def w_def)
qed

lemma irfft_ifft_hermitian:
  assumes L: "1 \<le> L" and len: "length r = nat (2 * L)" and ny: "r ! 0 = 0"
    and herm: "\<forall>k<nat L. r ! (nat L - k) = cnj (r ! (nat L + k))"
  shows "(case irfft_forward (slice_of r L (int (length r))) (2 * L) of
            Inl e \<Rightarrow> Inl e
          | Inr xs \<Rightarrow> Inr (map complex_of_real xs)) = ifft_forward (ifftshift r)"
proof -
  define l where "l = nat L"
  have l0: "0 < l" and n: "nat (2 * L) = 2 * l" and Ll: "L = int l" using L by (auto simp: l_def)
  have len': "length r = 2 * l" using len n by simp
  have sl: "slice_of r L (int (length r)) = drop l r"
    using len' Ll by (simp add: slice_of_def norm_slice_def Let_def)
  define b where "b = take (l + 1) (drop l r) @ replicate (l + 1 - length (drop l r)) 0"
  have b0: "b ! 0 = r ! l" using l0 len' by (simp add: b_def nth_append)
  have bk: "b ! k = r ! (l + k)" if "k < l" for k using that len' by (simp add: b_def nth_append)
  have bl: "b ! l = 0" using len' by (simp add: b_def nth_append)
  define xs where "xs = map (\<lambda>j. Re (b ! 0)
                      + (\<Sum>k = 1..<l. 2 * Re (b ! k * cis (2 * pi * real j * real k / real (2 * l))))
                      + (Re (b ! l) * (- 1) ^ j)) [0..<2 * l]"
  have ir: "irfft_forward (drop l r) (2 * L) = Inr xs"
    using L n by (simp add: irfft_forward_def Let_def b_def xs_def)
  have rne: "ifftshift r \<noteq> []" using len' l0 by (auto simp: ifftshift_def)
  have ifs: "ifftshift r = rotate l r" using len' by (simp add: ifftshift_def)
  have key: "map complex_of_real xs = dft 1 (rotate l r)"
  proof (rule nth_equalityI)
    show "length (map complex_of_real xs) = length (dft 1 (rotate l r))"
      using len' by (simp add: xs_def)
  next
    fix j assume "j < length (map complex_of_real xs)"
    then have j: "j < 2 * l" by (simp add: xs_def)
    have "(\<Sum>k = 1..<l. 2 * Re (b ! k * cis (2 * pi * real j * real k / real (2 * l)))) =
          (\<Sum>k = 1..<l. 2 * Re (r ! (l + k) * cis (2 * pi * real j * real k / real (2 * l))))"
      by (intro sum.cong refl) (simp add: bk)
    then have "complex_of_real (Re (b ! 0)
                 + (\<Sum>k = 1..<l. 2 * Re (b ! k * cis (2 * pi * real j * real k / real (2 * l))))
                 + (Re (b ! l) * (- 1) ^ j)) =
          (\<Sum>k = 0..<2 * l. rotate l r ! k * cis (1 * 2 * pi * real j * real k / real (2 * l)))"
      using hermitian_sum[OF l0 len' ny herm[folded l_def], of j] by (simp only: b0 bl) simp
    moreover have "map complex_of_real xs ! j = complex_of_real (Re (b ! 0)
                 + (\<Sum>k = 1..<l. 2 * Re (b ! k * cis (2 * pi * real j * real k / real (2 * l))))
                 + (Re (b ! l) * (- 1) ^ j))"
      using j unfolding xs_def by (simp only: nth_map length_map length_upt nth_upt) simp
    moreover have "dft 1 (rotate l r) ! j =
          (\<Sum>k = 0..<2 * l. rotate l r ! k * cis (1 * 2 * pi * real j * real k / real (2 * l)))"
      using j len' unfolding dft_def Let_def by (simp only: nth_map length_map length_upt nth_upt length_rotate) simp
    ultimately show "map complex_of_real xs ! j = dft 1 (rotate l r) ! j" by (simp only:)
  qed
  have "ifft_forward (ifftshift r) = Inr (dft 1 (rotate l r))"
    using rne by (simp add: ifft_forward_def ifs)
  then show ?thesis unfolding sl ir using key by simp
qed

lemma healpix_ifft_rings_reality:
  assumes "distinct ts" "\<forall>t\<in>set ts. t < length ftm"
    and "\<forall>t\<in>set ts. nphi_ring S (int t) nside = 2 * L \<longrightarrow> hermitian_row L (ftm ! t) \<and> ftm ! t ! 0 = 0"
  shows "healpix_ifft_rings S L nside True ftm f index ts =
         healpix_ifft_rings S L nside False ftm f index ts"
  using assms
proof (induction ts arbitrary: ftm f index)
  case Nil
  then show ?case by simp
next
  case (Cons t0 ts)
  define nphi where "nphi = nphi_ring S (int t0) nside"
  have t0: "t0 \<notin> set ts" "t0 < length ftm" using Cons.prems by auto
  show ?case
  proof (cases "nphi = 2 * L")
    case False
    have IH: "healpix_ifft_rings S L nside True (ftm[t0 := buf]) f1 i1 ts =
              healpix_ifft_rings S L nside False (ftm[t0 := buf]) f1 i1 ts" for buf f1 i1
      by (rule Cons.IH) (use Cons.prems t0 in \<open>auto simp: nth_list_update\<close>)
    show ?thesis using False
      by (simp add: nphi_def[symmetric] Let_def IH split: sum.splits prod.splits)
  next
    case True
    have IH: "healpix_ifft_rings S L nside True ftm f1 i1 ts =
              healpix_ifft_rings S L nside False ftm f1 i1 ts" for f1 i1
      by (rule Cons.IH) (use Cons.prems in auto)
    have row: "hermitian_row L (ftm ! t0)" "ftm ! t0 ! 0 = 0"
      using Cons.prems(3) True by (auto simp: nphi_def)
    have eq: "(case irfft_forward (slice_of (ftm ! t0) L (int (length (ftm ! t0)))) (2 * L) of
            Inl e \<Rightarrow> Inl e
          | Inr xs \<Rightarrow> Inr (map complex_of_real xs)) = ifft_forward (ifftshift (ftm ! t0))"
    proof (cases "1 \<le> L")
      case L: True
      show ?thesis
        by (rule irfft_ifft_hermitian[OF L]) (use row in \<open>auto simp: hermitian_row_def\<close>)
    next
      case False
      then have "ftm ! t0 = []" using row by (simp add: hermitian_row_def)
      then show ?thesis using False
        by (simp add: irfft_forward_def ifft_forward_def ifftshift_def)
    qed
    show ?thesis using True
      by (simp add: nphi_def[symmetric] Let_def IH eq split: sum.splits prod.splits)
  qed
qed

lemma healpix_ifft_reality:
  assumes "\<forall>t<length ftm. nphi_ring S (int t) nside = 2 * L \<longrightarrow>
             hermitian_row L (ftm ! t) \<and> ftm ! t ! 0 = 0"
  shows "healpix_ifft S ftm L nside True = healpix_ifft S ftm L nside False"
proof -
  have "healpix_ifft_rings S L nside True ftm f 0 [0..<length ftm] =
        healpix_ifft_rings S L nside False ftm f 0 [0..<length ftm]" for f
    by (rule healpix_ifft_rings_reality) (use assms in auto)
  then show ?thesis by (simp add: healpix_ifft_def split: sum.splits)
qed

text \<open>
  C3 (as the code has it, in exact arithmetic).  In \<open>healpix_fft\<close> the array built from
  the real FFT is overwritten by the complex FFT before it is used, so for a pixel array
  \<open>f\<close> that covers all the rings the two settings of \<open>reality\<close> give the same result, real
  signal or not.  In \<open>healpix_ifft\<close> the real inverse FFT reads the coefficients of the
  orders \<open>0, \<dots>, L - 1\<close> only and takes the coefficient of the order \<open>- L\<close>, at index \<open>0\<close> of
  the row, to be zero: the two settings agree when the rows of the rings with \<open>2 * L\<close>
  samples are conjugate symmetric and have a zero at index \<open>0\<close>.
\<close>

theorem healpix_reality_paths_agree:
  assumes "\<forall>t<nat (fst (ftm_shape S L nside)). 0 \<le> nphi_ring S (int t) nside"
    and "(\<Sum>t<nat (fst (ftm_shape S L nside)). nphi_ring S (int t) nside) \<le> int (length f)"
    and "\<forall>t<length ftm. nphi_ring S (int t) nside = 2 * L \<longrightarrow>
           hermitian_row L (ftm ! t) \<and> ftm ! t ! 0 = 0"
  shows "healpix_fft S f L nside True = healpix_fft S f L nside False \<and>
         healpix_ifft S ftm L nside True = healpix_ifft S ftm L nside False"
  using healpix_fft_reality[OF assms(1,2)] healpix_ifft_reality[OF assms(3)] by simp

lemma cis_3pi: "cis (3 * pi) = - 1" "cis (pi * 3) = - 1"
proof -
  have "cis (3 * pi) = cis (pi + 2 * pi)" by simp
  also have "\<dots> = cis pi * cis (2 * pi)" by (simp only: cis_mult)
  finally show "cis (3 * pi) = - 1" by simp
  then show "cis (pi * 3) = - 1" by (simp add: mult.commute)
qed

lemma cis_pi2: "cis (pi * 2) = 1"
  using cis_2pi by (simp add: mult.commute)

lemma healpix_ifft_nyquist_real:
  "healpix_ifft \<lparr>ftm_shape = (\<lambda>L ns. (3, 2 * L)), nphi_ring = (\<lambda>t ns. 4), hp_f_shape = (\<lambda>ns. 12)\<rparr>
     [[1, 0, 0, 0], [1, 0, 0, 0], [1, 0, 0, 0]] 2 1 True =
   Inr ([[1, 0, 0, 0], [1, 0, 0, 0], [1, 0, 0, 0]], [0, 0, 0, 0, 0, 0, 0, 0, 0, 0, 0, 0])"
  by (simp add: healpix_ifft_def zeros1_def Let_def irfft_forward_def slice_of_def norm_slice_def
      assign_slice_def upt_rec)

lemma healpix_ifft_nyquist_complex:
  "healpix_ifft \<lparr>ftm_shape = (\<lambda>L ns. (3, 2 * L)), nphi_ring = (\<lambda>t ns. 4), hp_f_shape = (\<lambda>ns. 12)\<rparr>
     [[1, 0, 0, 0], [1, 0, 0, 0], [1, 0, 0, 0]] 2 1 False =
   Inr ([[1, 0, 0, 0], [1, 0, 0, 0], [1, 0, 0, 0]], [1, - 1, 1, - 1, 1, - 1, 1, - 1, 1, - 1, 1, - 1])"
  by (simp add: healpix_ifft_def zeros1_def Let_def ifft_forward_def ifftshift_def dft_def norm_slice_def
      assign_slice_def upt_rec cis_3pi cis_pi2)

theorem healpix_reality_paths_agree_witness:
  "(0 :: int) \<le> 4 \<and> (3 * 4 :: int) \<le> int (length (replicate 12 (1 :: complex))) \<and>
   length [0, \<i>, 1, - \<i>] = nat (2 * 2) \<and>
   [0, \<i>, 1, - \<i>] ! 0 = 0 \<and>
   [0, \<i>, 1, - \<i>] ! 2 = cnj ([0, \<i>, 1, - \<i>] ! 2) \<and>
   [0, \<i>, 1, - \<i>] ! 1 = cnj ([0, \<i>, 1, - \<i>] ! 3) \<and>
   healpix_fft \<lparr>ftm_shape = (\<lambda>L ns. (3, 2 * L)), nphi_ring = (\<lambda>t ns. 4), hp_f_shape = (\<lambda>ns. 12)\<rparr>
     (replicate 12 1) 2 1 True =
   healpix_fft \<lparr>ftm_shape = (\<lambda>L ns. (3, 2 * L)), nphi_ring = (\<lambda>t ns. 4), hp_f_shape = (\<lambda>ns. 12)\<rparr>
     (replicate 12 1) 2 1 False \<and>
   healpix_ifft \<lparr>ftm_shape = (\<lambda>L ns. (3, 2 * L)), nphi_ring = (\<lambda>t ns. 4), hp_f_shape = (\<lambda>ns. 12)\<rparr>
     (replicate 3 [0, \<i>, 1, - \<i>]) 2 1 True =
   healpix_ifft \<lparr>ftm_shape = (\<lambda>L ns. (3, 2 * L)), nphi_ring = (\<lambda>t ns. 4), hp_f_shape = (\<lambda>ns. 12)\<rparr>
     (replicate 3 [0, \<i>, 1, - \<i>]) 2 1 False"
proof -
  have h: "hermitian_row 2 [0, \<i>, 1, - \<i>]"
    by (simp add: hermitian_row_def numeral_2_eq_2 less_Suc_eq)
  show ?thesis
    using healpix_reality_paths_agree
      [of "\<lparr>ftm_shape = (\<lambda>L ns. (3, 2 * L)), nphi_ring = (\<lambda>t ns. 4), hp_f_shape = (\<lambda>ns. 12)\<rparr>"
          2 1 "replicate 12 1" "replicate 3 [0, \<i>, 1, - \<i>]"] h
    by simp
qed

theorem healpix_ifft_nyquist_counterexample:
  "length [1, 0, 0, 0 :: complex] = nat (2 * 2) \<and>
   [1, 0, 0, 0 :: complex] ! 2 = cnj ([1, 0, 0, 0] ! 2) \<and>
   [1, 0, 0, 0 :: complex] ! 1 = cnj ([1, 0, 0, 0] ! 3) \<and>
   [1, 0, 0, 0 :: complex] ! 0 = cnj ([1, 0, 0, 0] ! 0) \<and>
   healpix_ifft \<lparr>ftm_shape = (\<lambda>L ns. (3, 2 * L)), nphi_ring = (\<lambda>t ns. 4), hp_f_shape = (\<lambda>ns. 12)\<rparr>
     [[1, 0, 0, 0], [1, 0, 0, 0], [1, 0, 0, 0]] 2 1 True =
   Inr ([[1, 0, 0, 0], [1, 0, 0, 0], [1, 0, 0, 0]], [0, 0, 0, 0, 0, 0, 0, 0, 0, 0, 0, 0]) \<and>
   healpix_ifft \<lparr>ftm_shape = (\<lambda>L ns. (3, 2 * L)), nphi_ring = (\<lambda>t ns. 4), hp_f_shape = (\<lambda>ns. 12)\<rparr>
     [[1, 0, 0, 0], [1, 0, 0, 0], [1, 0, 0, 0]] 2 1 False =
   Inr ([[1, 0, 0, 0], [1, 0, 0, 0], [1, 0, 0, 0]], [1, - 1, 1, - 1, 1, - 1, 1, - 1, 1, - 1, 1, - 1]) \<and>
   [1, - 1, 1, - 1, 1, - 1, 1, - 1, 1, - 1, 1, - 1] \<noteq> [0, 0, 0, 0, 0, 0, 0, 0, 0, 0, 0, 0 :: complex]"
  using healpix_ifft_nyquist_real healpix_ifft_nyquist_complex by simp


section \<open>Packing and unpacking of the coefficients\<close>

lemma set_loop_indices: "set (loop_indices L N) = {t. valid_triple L N t}"
proof (intro set_eqI iffI)
  fix t assume "t \<in> set (loop_indices L N)"
  then show "t \<in> {t. valid_triple L N t}"
    by (auto simp: loop_indices_def valid_triple_def)
next
  fix t assume "t \<in> {t. valid_triple L N t}"
  then obtain n el m where t: "t = (n, el, m)"
    and v: "- N + 1 \<le> n" "n \<le> N - 1" "0 \<le> el" "el \<le> L - 1" "- el \<le> m" "m \<le> el"
    by (cases t) (auto simp: valid_triple_def)
  have "\<exists>x\<in>{- N + 1..N - 1}. \<exists>xa\<in>{0..L - 1}. (n, el, m) \<in> (\<lambda>xb. (x, xa, xb)) ` {- xa..xa}"
    by (rule bexI[of _ n], rule bexI[of _ el]) (use v in auto)
  then show "t \<in> set (loop_indices L N)"
    unfolding loop_indices_def t by simp
qed

lemma sq_mono_int: "0 \<le> a \<Longrightarrow> a \<le> (b :: int) \<Longrightarrow> a * a \<le> b * b"
  by (rule mult_mono) auto

lemma degree_offset_bounds:
  fixes el m L :: int
  assumes "0 \<le> el" "el \<le> L - 1" "- el \<le> m" "m \<le> el"
  shows "0 \<le> el * el + el + m" "el * el + el + m < L * L"
    "el * el \<le> el * el + el + m" "el * el + el + m < (el + 1) * (el + 1)"
proof -
  have sq: "0 \<le> el * el" by simp
  show "0 \<le> el * el + el + m" "el * el \<le> el * el + el + m" using assms sq by linarith+
  show lt: "el * el + el + m < (el + 1) * (el + 1)" using assms by (simp add: algebra_simps)
  have "(el + 1) * (el + 1) \<le> L * L" by (rule sq_mono_int) (use assms in auto)
  then show "el * el + el + m < L * L" using lt by linarith
qed

lemma elmn2ind_range:
  assumes "valid_triple L N (n, el, m)"
  shows "0 \<le> elmn2ind el m n L N" "elmn2ind el m n L N < (2 * N - 1) * L * L"
proof -
  from assms have v: "- N + 1 \<le> n" "n \<le> N - 1" "0 \<le> el" "el \<le> L - 1" "- el \<le> m" "m \<le> el"
    by (auto simp: valid_triple_def)
  note b = degree_offset_bounds[OF v(3-6)]
  have a0: "0 \<le> (N - 1 + n) * (L * L)" using v by (intro mult_nonneg_nonneg) auto
  show "0 \<le> elmn2ind el m n L N" using a0 b(1) by (simp add: elmn2ind_def Let_def algebra_simps)
  have "(N - 1 + n) * (L * L) \<le> (2 * N - 2) * (L * L)"
    by (rule mult_right_mono) (use v in auto)
  then have "(N - 1 + n) * (L * L) + (el * el + el + m) < (2 * N - 2) * (L * L) + L * L"
    using b(2) by linarith
  then show "elmn2ind el m n L N < (2 * N - 1) * L * L"
    by (simp add: elmn2ind_def Let_def algebra_simps)
qed

lemma degree_unique:
  assumes "0 \<le> e1" "0 \<le> e2" "e1 * e1 \<le> r" "r < (e1 + 1) * (e1 + 1)"
    "e2 * e2 \<le> r" "r < (e2 + 1) * (e2 + (1 :: int))"
  shows "e1 = e2"
proof (rule ccontr)
  assume ne: "e1 \<noteq> e2"
  show False
  proof (cases "e1 < e2")
    case True
    then have "(e1 + 1) * (e1 + 1) \<le> e2 * e2" by (intro sq_mono_int) (use assms in auto)
    then show False using assms by linarith
  next
    case False
    then have "e2 < e1" using ne by simp
    then have "(e2 + 1) * (e2 + 1) \<le> e1 * e1" by (intro sq_mono_int) (use assms in auto)
    then show False using assms by linarith
  qed
qed

lemma elmn2ind_inj:
  assumes "valid_triple L N (n, el, m)" "valid_triple L N (n', el', m')"
    and "elmn2ind el m n L N = elmn2ind el' m' n' L N"
  shows "(n, el, m) = (n', el', m')"
proof -
  from assms have v: "0 \<le> el" "el \<le> L - 1" "- el \<le> m" "m \<le> el"
    and v': "0 \<le> el'" "el' \<le> L - 1" "- el' \<le> m'" "m' \<le> el'"
    by (auto simp: valid_triple_def)
  define r where "r = el * el + el + m"
  define r' where "r' = el' * el' + el' + m'"
  note b = degree_offset_bounds[OF v, folded r_def]
  note b' = degree_offset_bounds[OF v', folded r'_def]
  have eq: "(N - 1 + n) * (L * L) + r = (N - 1 + n') * (L * L) + r'"
    using assms(3) by (simp add: elmn2ind_def Let_def r_def r'_def algebra_simps)
  define B where "B = L * L"
  have LL: "0 < B" using b(1,2) by (simp add: B_def)
  have dv: "(a * B + x) div B = a" if "0 \<le> x" "x < B" for a x
  proof -
    have "(a * B + x) div B = a + x div B" using LL by simp
    then show ?thesis using that by (simp add: div_pos_pos_trivial)
  qed
  have "((N - 1 + n) * B + r) div B = N - 1 + n" using b(1,2) by (intro dv) (simp_all add: B_def)
  moreover have "((N - 1 + n') * B + r') div B = N - 1 + n'" using b'(1,2) by (intro dv) (simp_all add: B_def)
  ultimately have n: "n = n'" using eq by (simp add: B_def)
  then have rr: "r = r'" using eq by simp
  have e: "el = el'"
    by (rule degree_unique[of el el' r]) (use b b' v v' rr in auto)
  then have "m = m'" using rr by (simp add: r_def r'_def)
  then show ?thesis using n e by simp
qed

lemma degree_exists:
  assumes "0 \<le> (r :: int)"
  shows "\<exists>e. 0 \<le> e \<and> e * e \<le> r \<and> r < (e + 1) * (e + 1)"
  using assms
proof (induction "nat r" arbitrary: r)
  case 0
  then have "r = 0" by simp
  then show ?case by (intro exI[of _ 0]) simp
next
  case (Suc k)
  then have "k = nat (r - 1)" "0 \<le> r - 1" by linarith+
  from Suc.hyps(1)[OF this] obtain e where e: "0 \<le> e" "e * e \<le> r - 1" "r - 1 < (e + 1) * (e + 1)"
    by blast
  show ?case
  proof (cases "r < (e + 1) * (e + 1)")
    case True
    then show ?thesis using e by (intro exI[of _ e]) auto
  next
    case False
    then have "r = (e + 1) * (e + 1)" using e by linarith
    moreover have "(e + 1) * (e + 1) < (e + 1 + 1) * (e + 1 + 1)" using e by (simp add: algebra_simps)
    ultimately show ?thesis using e by (intro exI[of _ "e + 1"]) auto
  qed
qed

lemma elmn2ind_surj:
  assumes "1 \<le> L" "1 \<le> N" "0 \<le> q" "q < (2 * N - 1) * L * L"
  shows "\<exists>n el m. valid_triple L N (n, el, m) \<and> elmn2ind el m n L N = q"
proof -
  have LL: "0 < L * L" using assms(1) by simp
  define a where "a = q div (L * L)"
  define r where "r = q mod (L * L)"
  have r: "0 \<le> r" "r < L * L" using LL by (auto simp: r_def)
  have q: "q = a * (L * L) + r" unfolding a_def r_def by (rule div_mult_mod_eq[symmetric])
  have a0: "0 \<le> a" using assms(3) LL by (simp add: a_def pos_imp_zdiv_nonneg_iff)
  have a1: "a \<le> 2 * N - 2"
  proof -
    have ql: "q < (2 * N - 1) * (L * L)" using assms(4) by (simp add: algebra_simps)
    show ?thesis
    proof (rule ccontr)
      assume "\<not> a \<le> 2 * N - 2"
      then have "(2 * N - 1) * (L * L) \<le> a * (L * L)" using LL by (intro mult_right_mono) auto
      then show False using q r ql by linarith
    qed
  qed
  obtain e where e: "0 \<le> e" "e * e \<le> r" "r < (e + 1) * (e + 1)" using degree_exists[OF r(1)] by blast
  have eL: "e \<le> L - 1"
  proof (rule ccontr)
    assume "\<not> e \<le> L - 1"
    then have "L * L \<le> e * e" by (intro sq_mono_int) (use assms in auto)
    then show False using e r by linarith
  qed
  define m where "m = r - e * e - e"
  have m: "- e \<le> m" "m \<le> e" using e by (auto simp: m_def algebra_simps)
  have "valid_triple L N (a - (N - 1), e, m)"
    using a0 a1 e eL m by (simp add: valid_triple_def)
  moreover have "elmn2ind e m (a - (N - 1)) L N = q"
    by (simp add: elmn2ind_def Let_def m_def q algebra_simps)
  ultimately show ?thesis by blast
qed

lemma get3_ok:
  assumes "has_shape3 a b c x" "0 < a" "0 < b"
    and "0 \<le> i" "i < int a" "0 \<le> j" "j < int b" "0 \<le> k" "k < int c"
  shows "get3 x i j k = Inr (x ! nat i ! nat j ! nat k)"
  using has_shape3_shape3[OF assms(1-3)] assms(4-9)
  by (simp add: get3_def py_index_def)

lemma set3_ok:
  assumes "has_shape3 a b c x" "0 < a" "0 < b"
    and "0 \<le> i" "i < int a" "0 \<le> j" "j < int b" "0 \<le> k" "k < int c"
  shows "set3 x i j k v = Inr (x[nat i := (x ! nat i)[nat j := (x ! nat i ! nat j)[nat k := v]]])"
  using has_shape3_shape3[OF assms(1-3)] assms(4-9)
  by (simp add: set3_def py_index_def)

lemma upd3_spec:
  assumes sh: "has_shape3 a b c x" and i: "i < a" and j: "j < b" and k: "k < c"
  shows "has_shape3 a b c (x[i := (x ! i)[j := (x ! i ! j)[k := v]]])"
    and "\<And>i' j' k'. i' < a \<Longrightarrow> j' < b \<Longrightarrow> k' < c \<Longrightarrow>
          x[i := (x ! i)[j := (x ! i ! j)[k := v]]] ! i' ! j' ! k' =
          (if i' = i \<and> j' = j \<and> k' = k then v else x ! i' ! j' ! k')"
proof -
  have lA: "length x = a" using sh by (simp add: has_shape3_def)
  have row: "length (x ! i') = b" if "i' < a" for i'
    using has_shape2_len[OF has_shape3_nth[OF sh that]] .
  have cell: "length (x ! i' ! j') = c" if "i' < a" "j' < b" for i' j'
    using has_shape2_nth[OF has_shape3_nth[OF sh that(1)] that(2)] .
  show "has_shape3 a b c (x[i := (x ! i)[j := (x ! i ! j)[k := v]]])"
  proof (rule has_shape3_I)
    show "length (x[i := (x ! i)[j := (x ! i ! j)[k := v]]]) = a" using lA by simp
    show "length (x[i := (x ! i)[j := (x ! i ! j)[k := v]]] ! i') = b" if "i' < a" for i'
      using that lA row by (cases "i' = i") auto
    show "length (x[i := (x ! i)[j := (x ! i ! j)[k := v]]] ! i' ! j') = c" if "i' < a" "j' < b" for i' j'
      using that lA row cell by (cases "i' = i"; cases "j' = j") auto
  qed
  show "x[i := (x ! i)[j := (x ! i ! j)[k := v]]] ! i' ! j' ! k' =
          (if i' = i \<and> j' = j \<and> k' = k then v else x ! i' ! j' ! k')"
    if "i' < a" "j' < b" "k' < c" for i' j' k'
    using that lA row cell i j k by (cases "i' = i"; cases "j' = j"; cases "k' = k") auto
qed

lemma key_bounds:
  assumes "valid_triple L N (n, el, m)"
  shows "0 \<le> el" "el < int (nat L)" "0 \<le> L - 1 + m" "L - 1 + m < int (nat (2 * L - 1))"
    "0 \<le> N - 1 + n" "N - 1 + n < int (nat (2 * N - 1))"
  using assms by (auto simp: valid_triple_def)

lemma to_1d_loop_spec:
  assumes sh: "has_shape3 (nat L) (nat (2 * L - 1)) (nat (2 * N - 1)) x"
    and L: "1 \<le> L"
    and ts: "\<forall>t\<in>set ts. valid_triple L N t"
    and len: "length out = nat ((2 * N - 1) * L * L)"
  shows "\<exists>out'. to_1d_loop x L N out ts = Inr out' \<and> length out' = length out \<and>
           (\<forall>q<length out. (\<forall>n el m. (n, el, m) \<in> set ts \<longrightarrow> nat (elmn2ind el m n L N) \<noteq> q)
               \<longrightarrow> out' ! q = out ! q) \<and>
           (\<forall>n el m. (n, el, m) \<in> set ts \<longrightarrow>
               out' ! nat (elmn2ind el m n L N) = x ! nat el ! nat (L - 1 + m) ! nat (N - 1 + n))"
  using ts len
proof (induction ts arbitrary: out)
  case Nil
  then show ?case by simp
next
  case (Cons t ts)
  obtain n el m where t: "t = (n, el, m)" by (cases t)
  have v: "valid_triple L N (n, el, m)" using Cons.prems(1) t by simp
  note kb = key_bounds[OF v]
  have a0: "0 < nat L" "0 < nat (2 * L - 1)" using L by auto
  have g: "get3 x el (L - 1 + m) (N - 1 + n) = Inr (x ! nat el ! nat (L - 1 + m) ! nat (N - 1 + n))"
    by (rule get3_ok[OF sh a0 kb])
  define q0 where "q0 = nat (elmn2ind el m n L N)"
  note rg = elmn2ind_range[OF v]
  have q0: "q0 < length out" using rg Cons.prems(2) by (simp add: q0_def)
  have pi: "py_index (length out) (elmn2ind el m n L N) = Inr q0"
    using rg Cons.prems(2) by (simp add: py_index_def q0_def)
  define out1 where "out1 = out[q0 := x ! nat el ! nat (L - 1 + m) ! nat (N - 1 + n)]"
  have step: "to_1d_loop x L N out (t # ts) = to_1d_loop x L N out1 ts"
    by (simp add: t g pi out1_def)
  have l1: "length out1 = nat ((2 * N - 1) * L * L)" using Cons.prems(2) by (simp add: out1_def)
  from Cons.IH[OF _ l1] Cons.prems(1)
  obtain out' where r: "to_1d_loop x L N out1 ts = Inr out'" and lo: "length out' = length out1"
    and un: "\<And>q. q < length out1 \<Longrightarrow>
               (\<forall>n el m. (n, el, m) \<in> set ts \<longrightarrow> nat (elmn2ind el m n L N) \<noteq> q) \<Longrightarrow> out' ! q = out1 ! q"
    and hit: "\<And>n el m. (n, el, m) \<in> set ts \<Longrightarrow>
               out' ! nat (elmn2ind el m n L N) = x ! nat el ! nat (L - 1 + m) ! nat (N - 1 + n)"
    by auto
  have lo1: "length out1 = length out" by (simp add: out1_def)
  have A: "out' ! q = out ! q"
    if "q < length out" "\<forall>n el m. (n, el, m) \<in> set (t # ts) \<longrightarrow> nat (elmn2ind el m n L N) \<noteq> q" for q
  proof -
    have "q \<noteq> q0" using that(2) t by (auto simp: q0_def)
    moreover have "out' ! q = out1 ! q" using un[of q] that lo1 by auto
    ultimately show ?thesis by (simp add: out1_def)
  qed
  have B: "out' ! nat (elmn2ind el' m' n' L N) = x ! nat el' ! nat (L - 1 + m') ! nat (N - 1 + n')"
    if "(n', el', m') \<in> set (t # ts)" for n' el' m'
  proof (cases "(n', el', m') \<in> set ts")
    case True
    then show ?thesis using hit by blast
  next
    case False
    then have e: "n' = n" "el' = el" "m' = m" using that t by auto
    show ?thesis
    proof (cases "\<exists>n2 el2 m2. (n2, el2, m2) \<in> set ts \<and> nat (elmn2ind el2 m2 n2 L N) = q0")
      case True
      then obtain n2 el2 m2 where m2: "(n2, el2, m2) \<in> set ts" "nat (elmn2ind el2 m2 n2 L N) = q0"
        by blast
      then have v2: "valid_triple L N (n2, el2, m2)" using Cons.prems(1) by auto
      have "elmn2ind el2 m2 n2 L N = elmn2ind el m n L N"
        using m2(2) elmn2ind_range(1)[OF v2] rg(1) by (simp add: q0_def)
      then have "(n2, el2, m2) = (n, el, m)" using elmn2ind_inj[OF v2 v] by simp
      then show ?thesis using hit[OF m2(1)] e by simp
    next
      case False
      then have "out' ! q0 = out1 ! q0" using un[of q0] q0 lo1 by auto
      then show ?thesis using q0 e by (simp add: out1_def q0_def)
    qed
  qed
  show ?case using step r lo lo1 A B by auto
qed

lemma to_3d_loop_spec:
  assumes L: "1 \<le> L"
    and ts: "\<forall>t\<in>set ts. valid_triple L N t"
    and len: "length y = nat ((2 * N - 1) * L * L)"
    and sh: "has_shape3 (nat L) (nat (2 * L - 1)) (nat (2 * N - 1)) out"
  shows "\<exists>out'. to_3d_loop y L N out ts = Inr out' \<and>
           has_shape3 (nat L) (nat (2 * L - 1)) (nat (2 * N - 1)) out' \<and>
           (\<forall>i<nat L. \<forall>j<nat (2 * L - 1). \<forall>k<nat (2 * N - 1).
               (\<forall>n el m. (n, el, m) \<in> set ts \<longrightarrow> (nat el, nat (L - 1 + m), nat (N - 1 + n)) \<noteq> (i, j, k))
               \<longrightarrow> out' ! i ! j ! k = out ! i ! j ! k) \<and>
           (\<forall>n el m. (n, el, m) \<in> set ts \<longrightarrow>
               out' ! nat el ! nat (L - 1 + m) ! nat (N - 1 + n) = y ! nat (elmn2ind el m n L N))"
  using ts sh
proof (induction ts arbitrary: out)
  case Nil
  then show ?case by simp
next
  case (Cons t ts)
  obtain n el m where t: "t = (n, el, m)" by (cases t)
  have v: "valid_triple L N (n, el, m)" using Cons.prems(1) t by simp
  note kb = key_bounds[OF v]
  have a0: "0 < nat L" "0 < nat (2 * L - 1)" using L by auto
  define q0 where "q0 = nat (elmn2ind el m n L N)"
  note rg = elmn2ind_range[OF v]
  have pi: "py_index (length y) (elmn2ind el m n L N) = Inr q0"
    using rg len by (simp add: py_index_def q0_def)
  define i0 where "i0 = nat el"
  define j0 where "j0 = nat (L - 1 + m)"
  define k0 where "k0 = nat (N - 1 + n)"
  have b0: "i0 < nat L" "j0 < nat (2 * L - 1)" "k0 < nat (2 * N - 1)"
    using kb unfolding i0_def j0_def k0_def by linarith+
  define out1 where "out1 = out[i0 := (out ! i0)[j0 := (out ! i0 ! j0)[k0 := y ! q0]]]"
  have s3: "set3 out el (L - 1 + m) (N - 1 + n) (y ! q0) = Inr out1"
    unfolding out1_def i0_def j0_def k0_def by (rule set3_ok[OF Cons.prems(2) a0 kb])
  have step: "to_3d_loop y L N out (t # ts) = to_3d_loop y L N out1 ts"
    by (simp add: t pi s3)
  note u = upd3_spec[OF Cons.prems(2) b0, where v = "y ! q0", folded out1_def]
  from Cons.IH[OF _ u(1)] Cons.prems(1)
  obtain out' where r: "to_3d_loop y L N out1 ts = Inr out'"
    and sh': "has_shape3 (nat L) (nat (2 * L - 1)) (nat (2 * N - 1)) out'"
    and un: "\<And>i j k. i < nat L \<Longrightarrow> j < nat (2 * L - 1) \<Longrightarrow> k < nat (2 * N - 1) \<Longrightarrow>
               (\<forall>n el m. (n, el, m) \<in> set ts \<longrightarrow> (nat el, nat (L - 1 + m), nat (N - 1 + n)) \<noteq> (i, j, k))
               \<Longrightarrow> out' ! i ! j ! k = out1 ! i ! j ! k"
    and hit: "\<And>n el m. (n, el, m) \<in> set ts \<Longrightarrow>
               out' ! nat el ! nat (L - 1 + m) ! nat (N - 1 + n) = y ! nat (elmn2ind el m n L N)"
    by auto
  have A: "out' ! i ! j ! k = out ! i ! j ! k"
    if "i < nat L" "j < nat (2 * L - 1)" "k < nat (2 * N - 1)"
      "\<forall>n el m. (n, el, m) \<in> set (t # ts) \<longrightarrow> (nat el, nat (L - 1 + m), nat (N - 1 + n)) \<noteq> (i, j, k)"
    for i j k
  proof -
    have ne: "\<not> (i = i0 \<and> j = j0 \<and> k = k0)" using that(4) t by (auto simp: i0_def j0_def k0_def)
    have "out' ! i ! j ! k = out1 ! i ! j ! k" using un[OF that(1-3)] that(4) by auto
    then show ?thesis using u(2)[OF that(1-3)] ne by auto
  qed
  have B: "out' ! nat el' ! nat (L - 1 + m') ! nat (N - 1 + n') = y ! nat (elmn2ind el' m' n' L N)"
    if "(n', el', m') \<in> set (t # ts)" for n' el' m'
  proof (cases "(n', el', m') \<in> set ts")
    case True
    then show ?thesis using hit by blast
  next
    case False
    then have e: "n' = n" "el' = el" "m' = m" using that t by auto
    show ?thesis
    proof (cases "\<exists>n2 el2 m2. (n2, el2, m2) \<in> set ts \<and>
                    (nat el2, nat (L - 1 + m2), nat (N - 1 + n2)) = (i0, j0, k0)")
      case True
      then obtain n2 el2 m2 where m2: "(n2, el2, m2) \<in> set ts"
        "(nat el2, nat (L - 1 + m2), nat (N - 1 + n2)) = (i0, j0, k0)"
        by blast
      then have v2: "valid_triple L N (n2, el2, m2)" using Cons.prems(1) by auto
      note kb2 = key_bounds[OF v2]
      have "(n2, el2, m2) = (n, el, m)"
        using m2(2) kb kb2 by (auto simp: i0_def j0_def k0_def)
      then show ?thesis using hit[OF m2(1)] e by simp
    next
      case False
      then have "out' ! i0 ! j0 ! k0 = out1 ! i0 ! j0 ! k0"
        using un[OF b0] by (auto simp: i0_def j0_def k0_def)
      then show ?thesis using u(2)[OF b0] e by (simp add: i0_def j0_def k0_def q0_def)
    qed
  qed
  show ?case using step r sh' A B by auto
qed

lemma shape3_eqI:
  assumes "has_shape3 a b c A" "has_shape3 a b c B"
    and "\<And>i j k. i < a \<Longrightarrow> j < b \<Longrightarrow> k < c \<Longrightarrow> A ! i ! j ! k = B ! i ! j ! k"
  shows "A = B"
proof (rule nth_equalityI)
  show "length A = length B" using assms(1,2) by (simp add: has_shape3_def)
next
  fix i assume "i < length A"
  then have i: "i < a" using assms(1) by (simp add: has_shape3_def)
  show "A ! i = B ! i"
  proof (rule nth_equalityI)
    show "length (A ! i) = length (B ! i)"
      using has_shape2_len[OF has_shape3_nth[OF assms(1) i]] has_shape2_len[OF has_shape3_nth[OF assms(2) i]]
      by simp
  next
    fix j assume "j < length (A ! i)"
    then have j: "j < b" using has_shape2_len[OF has_shape3_nth[OF assms(1) i]] by simp
    show "A ! i ! j = B ! i ! j"
    proof (rule nth_equalityI)
      show "length (A ! i ! j) = length (B ! i ! j)"
        using has_shape2_nth[OF has_shape3_nth[OF assms(1) i] j]
          has_shape2_nth[OF has_shape3_nth[OF assms(2) i] j] by simp
    next
      fix k assume "k < length (A ! i ! j)"
      then have "k < c" using has_shape2_nth[OF has_shape3_nth[OF assms(1) i] j] by simp
      then show "A ! i ! j ! k = B ! i ! j ! k" using assms(3)[OF i j] by simp
    qed
  qed
qed

lemma flmn_3d_to_1d_spec:
  assumes "1 \<le> L" "1 \<le> N" "has_shape3 (nat L) (nat (2 * L - 1)) (nat (2 * N - 1)) x"
  shows "\<exists>y. flmn_3d_to_1d (Arr3 x) L N = Inr y \<and> length y = nat ((2 * N - 1) * L * L) \<and>
           (\<forall>n el m. valid_triple L N (n, el, m) \<longrightarrow>
               y ! nat (elmn2ind el m n L N) = x ! nat el ! nat (L - 1 + m) ! nat (N - 1 + n))"
proof -
  have nn: "0 \<le> (2 * N - 1) * L * L" using assms(1,2) by simp
  then have z: "zeros1 (flmn_shape_1d L N) = Inr (replicate (nat ((2 * N - 1) * L * L)) (0 :: complex))"
    by (simp add: zeros1_def flmn_shape_1d_def)
  have "\<exists>out'. to_1d_loop x L N (replicate (nat ((2 * N - 1) * L * L)) 0) (loop_indices L N) = Inr out' \<and>
           length out' = length (replicate (nat ((2 * N - 1) * L * L)) (0 :: complex)) \<and>
           (\<forall>q<length (replicate (nat ((2 * N - 1) * L * L)) (0 :: complex)).
               (\<forall>n el m. (n, el, m) \<in> set (loop_indices L N) \<longrightarrow> nat (elmn2ind el m n L N) \<noteq> q)
               \<longrightarrow> out' ! q = replicate (nat ((2 * N - 1) * L * L)) 0 ! q) \<and>
           (\<forall>n el m. (n, el, m) \<in> set (loop_indices L N) \<longrightarrow>
               out' ! nat (elmn2ind el m n L N) = x ! nat el ! nat (L - 1 + m) ! nat (N - 1 + n))"
    by (rule to_1d_loop_spec[OF assms(3,1)]) (simp_all add: set_loop_indices)
  then show ?thesis using z by (auto simp: flmn_3d_to_1d_def set_loop_indices)
qed

lemma flmn_1d_to_3d_spec:
  assumes "1 \<le> L" "1 \<le> N" "length y = nat ((2 * N - 1) * L * L)"
  shows "\<exists>X. flmn_1d_to_3d (Arr1 y) L N = Inr X \<and>
           has_shape3 (nat L) (nat (2 * L - 1)) (nat (2 * N - 1)) X \<and>
           (\<forall>i<nat L. \<forall>j<nat (2 * L - 1). \<forall>k<nat (2 * N - 1).
               (\<forall>n el m. valid_triple L N (n, el, m) \<longrightarrow> (nat el, nat (L - 1 + m), nat (N - 1 + n)) \<noteq> (i, j, k))
               \<longrightarrow> X ! i ! j ! k = 0) \<and>
           (\<forall>n el m. valid_triple L N (n, el, m) \<longrightarrow>
               X ! nat el ! nat (L - 1 + m) ! nat (N - 1 + n) = y ! nat (elmn2ind el m n L N))"
proof -
  define Z :: arr3 where "Z = replicate (nat L) (replicate (nat (2 * L - 1)) (replicate (nat (2 * N - 1)) 0))"
  have z: "zeros3 (flmn_shape L N) = Inr Z"
    using assms(1,2) by (simp add: zeros3_def flmn_shape_def Z_def)
  have shZ: "has_shape3 (nat L) (nat (2 * L - 1)) (nat (2 * N - 1)) Z"
    using zeros3_shape(1)[OF z[unfolded flmn_shape_def]] .
  have Z0: "Z ! i ! j ! k = 0" if "i < nat L" "j < nat (2 * L - 1)" "k < nat (2 * N - 1)" for i j k
    using that by (simp add: Z_def)
  have "\<exists>out'. to_3d_loop y L N Z (loop_indices L N) = Inr out' \<and>
           has_shape3 (nat L) (nat (2 * L - 1)) (nat (2 * N - 1)) out' \<and>
           (\<forall>i<nat L. \<forall>j<nat (2 * L - 1). \<forall>k<nat (2 * N - 1).
               (\<forall>n el m. (n, el, m) \<in> set (loop_indices L N) \<longrightarrow>
                   (nat el, nat (L - 1 + m), nat (N - 1 + n)) \<noteq> (i, j, k))
               \<longrightarrow> out' ! i ! j ! k = Z ! i ! j ! k) \<and>
           (\<forall>n el m. (n, el, m) \<in> set (loop_indices L N) \<longrightarrow>
               out' ! nat el ! nat (L - 1 + m) ! nat (N - 1 + n) = y ! nat (elmn2ind el m n L N))"
    by (rule to_3d_loop_spec[OF assms(1) _ assms(3) shZ]) (simp add: set_loop_indices)
  then obtain X where X: "to_3d_loop y L N Z (loop_indices L N) = Inr X"
    and sh: "has_shape3 (nat L) (nat (2 * L - 1)) (nat (2 * N - 1)) X"
    and un: "\<And>i j k. i < nat L \<Longrightarrow> j < nat (2 * L - 1) \<Longrightarrow> k < nat (2 * N - 1) \<Longrightarrow>
               (\<forall>n el m. valid_triple L N (n, el, m) \<longrightarrow>
                   (nat el, nat (L - 1 + m), nat (N - 1 + n)) \<noteq> (i, j, k))
               \<Longrightarrow> X ! i ! j ! k = Z ! i ! j ! k"
    and hit: "\<And>n el m. valid_triple L N (n, el, m) \<Longrightarrow>
               X ! nat el ! nat (L - 1 + m) ! nat (N - 1 + n) = y ! nat (elmn2ind el m n L N)"
    unfolding set_loop_indices by auto
  have "flmn_1d_to_3d (Arr1 y) L N = Inr X" using z X by (simp add: flmn_1d_to_3d_def)
  moreover have "X ! i ! j ! k = 0"
    if "i < nat L" "j < nat (2 * L - 1)" "k < nat (2 * N - 1)"
      "\<forall>n el m. valid_triple L N (n, el, m) \<longrightarrow> (nat el, nat (L - 1 + m), nat (N - 1 + n)) \<noteq> (i, j, k)"
    for i j k
    using un[OF that] Z0[OF that(1-3)] by simp
  ultimately show ?thesis using sh hit by blast
qed

lemma roundtrip_3d:
  assumes "1 \<le> L" "1 \<le> N" "has_shape3 (nat L) (nat (2 * L - 1)) (nat (2 * N - 1)) x" "in_support L x"
  shows "\<exists>y. flmn_3d_to_1d (Arr3 x) L N = Inr y \<and> flmn_1d_to_3d (Arr1 y) L N = Inr x"
proof -
  obtain y where y: "flmn_3d_to_1d (Arr3 x) L N = Inr y" and ly: "length y = nat ((2 * N - 1) * L * L)"
    and yv: "\<And>n el m. valid_triple L N (n, el, m) \<Longrightarrow>
               y ! nat (elmn2ind el m n L N) = x ! nat el ! nat (L - 1 + m) ! nat (N - 1 + n)"
    using flmn_3d_to_1d_spec[OF assms(1-3)] by blast
  obtain X where X: "flmn_1d_to_3d (Arr1 y) L N = Inr X"
    and sh: "has_shape3 (nat L) (nat (2 * L - 1)) (nat (2 * N - 1)) X"
    and un: "\<And>i j k. i < nat L \<Longrightarrow> j < nat (2 * L - 1) \<Longrightarrow> k < nat (2 * N - 1) \<Longrightarrow>
               (\<forall>n el m. valid_triple L N (n, el, m) \<longrightarrow> (nat el, nat (L - 1 + m), nat (N - 1 + n)) \<noteq> (i, j, k))
               \<Longrightarrow> X ! i ! j ! k = 0"
    and hit: "\<And>n el m. valid_triple L N (n, el, m) \<Longrightarrow>
               X ! nat el ! nat (L - 1 + m) ! nat (N - 1 + n) = y ! nat (elmn2ind el m n L N)"
    using flmn_1d_to_3d_spec[OF assms(1,2) ly] by blast
  have lx: "length x = nat L" using assms(3) by (simp add: has_shape3_def)
  have rowx: "length (x ! i) = nat (2 * L - 1)" if "i < nat L" for i
    using has_shape2_len[OF has_shape3_nth[OF assms(3) that]] .
  have cellx: "length (x ! i ! j) = nat (2 * N - 1)" if "i < nat L" "j < nat (2 * L - 1)" for i j
    using has_shape2_nth[OF has_shape3_nth[OF assms(3) that(1)] that(2)] .
  have "X = x"
  proof (rule shape3_eqI[OF sh assms(3)])
    fix i j k assume b: "i < nat L" "j < nat (2 * L - 1)" "k < nat (2 * N - 1)"
    define n where "n = int k - (N - 1)"
    define m where "m = int j - (L - 1)"
    have key: "nat (int i) = i" "nat (L - 1 + m) = j" "nat (N - 1 + n) = k" by (auto simp: n_def m_def)
    show "X ! i ! j ! k = x ! i ! j ! k"
    proof (cases "\<bar>m\<bar> \<le> int i")
      case True
      then have v: "valid_triple L N (n, int i, m)" using b by (auto simp: valid_triple_def n_def)
      show ?thesis using hit[OF v] yv[OF v] key by simp
    next
      case False
      have none: "\<forall>n' el' m'. valid_triple L N (n', el', m') \<longrightarrow>
                    (nat el', nat (L - 1 + m'), nat (N - 1 + n')) \<noteq> (i, j, k)"
      proof (intro allI impI notI)
        fix n' el' m' assume v': "valid_triple L N (n', el', m')"
          and e: "(nat el', nat (L - 1 + m'), nat (N - 1 + n')) = (i, j, k)"
        note kb = key_bounds[OF v']
        have "el' = int i" "m' = m" using e kb by (auto simp: m_def)
        then show False using v' False by (auto simp: valid_triple_def)
      qed
      have "x ! i ! j ! k = 0"
        using assms(4) b lx rowx cellx False unfolding in_support_def m_def by auto
      then show ?thesis using un[OF b none] by simp
    qed
  qed
  then show ?thesis using y X by blast
qed

lemma roundtrip_1d:
  assumes "1 \<le> L" "1 \<le> N" "length y = nat (flmn_shape_1d L N)"
  shows "\<exists>X. flmn_1d_to_3d (Arr1 y) L N = Inr X \<and> flmn_3d_to_1d (Arr3 X) L N = Inr y"
proof -
  have ly: "length y = nat ((2 * N - 1) * L * L)" using assms(3) by (simp add: flmn_shape_1d_def)
  obtain X where X: "flmn_1d_to_3d (Arr1 y) L N = Inr X"
    and sh: "has_shape3 (nat L) (nat (2 * L - 1)) (nat (2 * N - 1)) X"
    and hit: "\<And>n el m. valid_triple L N (n, el, m) \<Longrightarrow>
               X ! nat el ! nat (L - 1 + m) ! nat (N - 1 + n) = y ! nat (elmn2ind el m n L N)"
    using flmn_1d_to_3d_spec[OF assms(1,2) ly] by blast
  obtain y' where y': "flmn_3d_to_1d (Arr3 X) L N = Inr y'" and ly': "length y' = nat ((2 * N - 1) * L * L)"
    and yv: "\<And>n el m. valid_triple L N (n, el, m) \<Longrightarrow>
               y' ! nat (elmn2ind el m n L N) = X ! nat el ! nat (L - 1 + m) ! nat (N - 1 + n)"
    using flmn_3d_to_1d_spec[OF assms(1,2) sh] by blast
  have "y' = y"
  proof (rule nth_equalityI)
    show "length y' = length y" using ly ly' by simp
  next
    fix q assume "q < length y'"
    then have q: "0 \<le> int q" "int q < (2 * N - 1) * L * L" using ly' by auto
    from elmn2ind_surj[OF assms(1,2) q] obtain n el m where
      v: "valid_triple L N (n, el, m)" and e: "elmn2ind el m n L N = int q" by blast
    show "y' ! q = y ! q" using yv[OF v] hit[OF v] e by simp
  qed
  then show ?thesis using X y' by blast
qed

lemma flmn_3d_to_1d_example:
  "flmn_3d_to_1d (Arr3 [[[0], [1], [0]], [[2], [3], [4]]]) 2 1 = Inr [1, 2, 3, 4]"
  by (simp add: flmn_3d_to_1d_def zeros1_def flmn_shape_1d_def loop_indices_def upto_rec1 get3_def
      shape3_def py_index_def elmn2ind_def negative_dimensions_def numeral_eq_Suc)

lemma flmn_1d_to_3d_example:
  "flmn_1d_to_3d (Arr1 [5, 6, 7, 8]) 2 1 = Inr [[[0], [5], [0]], [[6], [7], [8]]]"
  by (simp add: flmn_1d_to_3d_def zeros3_def flmn_shape_def loop_indices_def upto_rec1 set3_def
      shape3_def py_index_def elmn2ind_def negative_dimensions_def numeral_eq_Suc)

text \<open>
  Claim C4.  For every \<open>L \<ge> 1\<close> and \<open>N \<ge> 1\<close> the packing and unpacking of the Wigner
  coefficients are exact inverses of each other.  A three-dimensional array \<open>x\<close> of shape
  \<open>(L, 2L-1, 2N-1)\<close> whose entries at the positions with \<open>|m| > l\<close> are zero is packed by
  \<open>flmn_3d_to_1d\<close> without an error, and \<open>flmn_1d_to_3d\<close> of the packed vector is \<open>x\<close>
  again.  A vector \<open>y\<close> of length \<open>(2N-1) L L\<close> is unpacked by \<open>flmn_1d_to_3d\<close> without an
  error, and \<open>flmn_3d_to_1d\<close> of the unpacked array is \<open>y\<close> again.  (The loops visit every
  triple \<open>(n, l, m)\<close> with \<open>|m| \<le> l\<close> once, and \<open>elmn2ind\<close> is a bijection between these
  triples and the indices \<open>0, ..., (2N-1) L L - 1\<close>.)
\<close>

theorem flmn_packing_round_trip:
  assumes "1 \<le> L" "1 \<le> N"
  shows "(has_shape3 (nat L) (nat (2 * L - 1)) (nat (2 * N - 1)) x \<and> in_support L x \<longrightarrow>
            (\<exists>y. flmn_3d_to_1d (Arr3 x) L N = Inr y \<and> flmn_1d_to_3d (Arr1 y) L N = Inr x)) \<and>
         (length y = nat ((2 * N - 1) * L * L) \<longrightarrow>
            (\<exists>X. flmn_1d_to_3d (Arr1 y) L N = Inr X \<and> flmn_3d_to_1d (Arr3 X) L N = Inr y))"
  using roundtrip_3d[OF assms] roundtrip_1d[OF assms, of y] by (simp add: flmn_shape_1d_def)

text \<open>The theorem at \<open>L = 2\<close>, \<open>N = 1\<close>: the array with the rows \<open>(0, 1, 0)\<close> for \<open>l = 0\<close>
  and \<open>(2, 3, 4)\<close> for \<open>l = 1\<close> packs to \<open>(1, 2, 3, 4)\<close>, and the vector \<open>(5, 6, 7, 8)\<close>
  unpacks to the rows \<open>(0, 5, 0)\<close> and \<open>(6, 7, 8)\<close>.\<close>

theorem flmn_packing_round_trip_witness:
  "(1::int) \<le> 2 \<and> (1::int) \<le> 1 \<and>
   flmn_3d_to_1d (Arr3 [[[0], [1], [0]], [[2], [3], [4]]]) 2 1 = Inr [1, 2, 3, 4] \<and>
   flmn_1d_to_3d (Arr1 [1, 2, 3, 4]) 2 1 = Inr [[[0], [1], [0]], [[2], [3], [4]]] \<and>
   length [5, 6, 7, 8 :: complex] = nat ((2 * 1 - 1) * 2 * 2) \<and>
   flmn_1d_to_3d (Arr1 [5, 6, 7, 8]) 2 1 = Inr [[[0], [5], [0]], [[6], [7], [8]]] \<and>
   flmn_3d_to_1d (Arr3 [[[0], [5], [0]], [[6], [7], [8]]]) 2 1 = Inr [5, 6, 7, 8]"
proof -
  have sh: "has_shape3 (nat 2) (nat (2 * 2 - 1)) (nat (2 * 1 - 1))
              [[[0], [1], [0]], [[2], [3], [4 :: complex]]]"
    by (simp add: has_shape3_def has_shape2_def)
  have sup: "in_support 2 [[[0], [1], [0]], [[2], [3], [4]]]"
    by (auto simp: in_support_def less_Suc_eq nth_Cons split: nat.splits)
  have len: "length [5, 6, 7, 8 :: complex] = nat ((2 * 1 - 1) * 2 * 2)" by simp
  show ?thesis
    using flmn_packing_round_trip[of 2 1 "[[[0], [1], [0]], [[2], [3], [4]]]" "[5, 6, 7, 8]"] sh sup len
    by (simp add: flmn_3d_to_1d_example flmn_1d_to_3d_example)
qed

section \<open>Periodic extension and truncation\<close>

text \<open>The inverse discrete Fourier transform undoes the forward one: the sum of the
  \<open>n\<close>-th roots of unity to a power that \<open>n\<close> does not divide is zero.\<close>

lemma cis_eq_one_int:
  assumes "cis t = 1"
  shows "\<exists>m::int. t = of_int m * 2 * pi"
proof -
  have "cos t = 1" using assms by (simp add: complex_eq_iff)
  then show ?thesis by (simp add: cos_one_2pi_int)
qed

lemma root_of_unity_sum:
  fixes d :: int and n :: nat
  assumes n: "0 < n" and d: "\<not> int n dvd d"
  shows "(\<Sum>k = 0..<n. cis (2 * pi * real_of_int d * real k / real n)) = 0"
proof -
  define w where "w = cis (2 * pi * real_of_int d / real n)"
  have pw: "cis (2 * pi * real_of_int d * real k / real n) = w ^ k" for k
    unfolding w_def by (simp add: DeMoivre algebra_simps)
  have wn: "w ^ n = 1"
  proof -
    have "w ^ n = cis (2 * pi * real_of_int d)"
      unfolding w_def using n by (simp add: DeMoivre)
    also have "\<dots> = 1" by (rule cis_multiple_2pi) simp
    finally show ?thesis .
  qed
  have w1: "w \<noteq> 1"
  proof
    assume "w = 1"
    then obtain m :: int where m: "2 * pi * real_of_int d / real n = of_int m * 2 * pi"
      unfolding w_def using cis_eq_one_int by blast
    have "real_of_int d = real_of_int m * real n"
      using m n by (simp add: field_simps)
    then have "real_of_int d = real_of_int (m * int n)" by simp
    then have "d = m * int n" by (simp only: of_int_eq_iff)
    then show False using d by simp
  qed
  have "(\<Sum>k = 0..<n. cis (2 * pi * real_of_int d * real k / real n)) = (\<Sum>k<n. w ^ k)"
    by (simp add: pw atLeast0LessThan)
  also have "\<dots> = (w ^ n - 1) / (w - 1)" using w1 by (rule geometric_sum)
  also have "\<dots> = 0" by (simp add: wn)
  finally show ?thesis .
qed

lemma dft_nth:
  assumes "j < length xs"
  shows "dft sg xs ! j =
         (\<Sum>k = 0..<length xs. xs ! k * cis (sg * 2 * pi * real j * real k / real (length xs)))"
  using assms by (simp add: dft_def Let_def)

lemma dft_inverse_nth:
  assumes t: "t < length xs"
  shows "dft 1 (dft (- 1) xs) ! t = of_nat (length xs) * xs ! t"
proof -
  define n where "n = length xs"
  have n: "0 < n" using t by (auto simp: n_def)
  have inner: "(\<Sum>k = 0..<n. cis (- 1 * 2 * pi * real k * real j / real n) * cis (1 * 2 * pi * real t * real k / real n))
               = (if j = t then of_nat n else 0)" if j: "j < n" for j
  proof -
    have e: "cis (- 1 * 2 * pi * real k * real j / real n) * cis (1 * 2 * pi * real t * real k / real n)
             = cis (2 * pi * real_of_int (int t - int j) * real k / real n)" for k
      by (simp add: cis_mult algebra_simps diff_divide_distrib add_divide_distrib)
    show ?thesis
    proof (cases "j = t")
      case True
      then show ?thesis unfolding e by simp
    next
      case False
      have "\<not> int n dvd (int t - int j)"
      proof
        assume dv: "int n dvd (int t - int j)"
        have "\<bar>int t - int j\<bar> < int n" using j t by (simp add: n_def)
        then have "int t - int j = 0" using dv zdvd_not_zless[of "\<bar>int t - int j\<bar>" "int n"]
          by (metis abs_0_eq abs_ge_zero dvd_abs_iff order_le_less zdvd_not_zless)
        then show False using False by simp
      qed
      from root_of_unity_sum[OF n this] show ?thesis unfolding e using False by simp
    qed
  qed
  have "dft 1 (dft (- 1) xs) ! t
        = (\<Sum>k = 0..<n. dft (- 1) xs ! k * cis (1 * 2 * pi * real t * real k / real n))"
    using t by (simp add: dft_nth n_def)
  also have "\<dots> = (\<Sum>k = 0..<n. (\<Sum>j = 0..<n. xs ! j * cis (- 1 * 2 * pi * real k * real j / real n))
                        * cis (1 * 2 * pi * real t * real k / real n))"
    by (rule sum.cong) (simp_all add: dft_nth n_def)
  also have "\<dots> = (\<Sum>k = 0..<n. \<Sum>j = 0..<n. xs ! j * (cis (- 1 * 2 * pi * real k * real j / real n)
                        * cis (1 * 2 * pi * real t * real k / real n)))"
    by (simp only: sum_distrib_right mult.assoc)
  also have "\<dots> = (\<Sum>j = 0..<n. \<Sum>k = 0..<n. xs ! j * (cis (- 1 * 2 * pi * real k * real j / real n)
                        * cis (1 * 2 * pi * real t * real k / real n)))"
    by (rule sum.swap)
  also have "\<dots> = (\<Sum>j = 0..<n. xs ! j * (if j = t then of_nat n else 0))"
    by (rule sum.cong[OF refl]) (simp only: sum_distrib_left[symmetric] inner atLeastLessThan_iff)
  also have "\<dots> = of_nat n * xs ! t"
    using t by (simp add: n_def sum.delta' if_distrib[of "\<lambda>z. _ * z"] cong: if_cong)
  finally show ?thesis by (simp add: n_def)
qed

lemma ifft_fft_inverse:
  assumes "xs \<noteq> []"
  shows "map (\<lambda>z. z / of_nat (length xs)) (dft 1 (dft (- 1) xs)) = xs"
proof (rule nth_equalityI)
  show "length (map (\<lambda>z. z / of_nat (length xs)) (dft 1 (dft (- 1) xs))) = length xs" by simp
next
  fix i assume "i < length (map (\<lambda>z. z / of_nat (length xs)) (dft 1 (dft (- 1) xs)))"
  then have i: "i < length xs" by simp
  then show "map (\<lambda>z. z / of_nat (length xs)) (dft 1 (dft (- 1) xs)) ! i = xs ! i"
    using assms by (simp add: dft_inverse_nth)
qed

lemma ifftshift_fftshift: "ifftshift (fftshift xs) = xs"
proof -
  have "length xs div 2 + (length xs - length xs div 2) = length xs" by simp
  then show ?thesis by (simp add: ifftshift_def fftshift_def rotate_rotate)
qed

text \<open>Blocks of a two-dimensional array.\<close>

lemma map_err_all:
  assumes "\<And>x. x \<in> set xs \<Longrightarrow> f x = Inr (g x)"
  shows "map_err f xs = Inr (map g xs)"
  using assms by (induction xs) simp_all

lemma slice_of_take:
  assumes "0 \<le> n"
  shows "slice_of a 0 n = take (nat n) a"
  using assms by (simp add: slice_of_def norm_slice_def Let_def min_def max_def)

lemma norm_slice_le: "norm_slice n a \<le> n"
  by (auto simp: norm_slice_def max_def min_def)

lemma slice_of_length:
  "length (slice_of a r0 r1) = max (norm_slice (length a) r0) (norm_slice (length a) r1) - norm_slice (length a) r0"
proof -
  have "norm_slice (length a) r1 \<le> length a" "norm_slice (length a) r0 \<le> length a"
    by (rule norm_slice_le)+
  then show ?thesis by (simp add: slice_of_def Let_def)
qed

lemma has_shape2_I:
  assumes "length A = a" "\<And>i. i < a \<Longrightarrow> length (A ! i) = b"
  shows "has_shape2 a b A"
  using assms by (auto simp: has_shape2_def list_all_length)

lemma block_of_shape:
  assumes "has_shape2 R C a"
  shows "has_shape2 (max (norm_slice R r0) (norm_slice R r1) - norm_slice R r0)
           (max (norm_slice C c0) (norm_slice C c1) - norm_slice C c0) (block_of a r0 r1 c0 c1)"
proof (rule has_shape2_I)
  have la: "length a = R" using assms by (simp add: has_shape2_def)
  show "length (block_of a r0 r1 c0 c1) = max (norm_slice R r0) (norm_slice R r1) - norm_slice R r0"
    by (simp add: block_of_def slice_of_length la)
  fix i assume i: "i < max (norm_slice R r0) (norm_slice R r1) - norm_slice R r0"
  then have i': "i < length (slice_of a r0 r1)" by (simp add: slice_of_length la)
  have "slice_of a r0 r1 ! i \<in> set a"
    using i' by (metis (no_types, lifting) in_set_dropD in_set_takeD nth_mem slice_of_def)
  then have "length (slice_of a r0 r1 ! i) = C"
    using assms by (auto simp: has_shape2_def list_all_iff)
  then show "length (block_of a r0 r1 c0 c1 ! i) = max (norm_slice C c0) (norm_slice C c1) - norm_slice C c0"
    using i' by (simp add: block_of_def slice_of_length)
qed

lemma mul_last_shape:
  assumes "has_shape2 r c a" "length s = c"
  shows "\<exists>v. mul_last a s = Inr v \<and> has_shape2 r c v"
proof -
  have "mul_last a s = Inr (map (\<lambda>row. map2 (*) row s) a)"
    unfolding mul_last_def
    by (rule map_err_all) (use assms in \<open>auto simp: has_shape2_def list_all_iff\<close>)
  moreover have "has_shape2 r c (map (\<lambda>row. map2 (*) row s) a)"
    using assms by (auto simp: has_shape2_def list_all_iff)
  ultimately show ?thesis by blast
qed

lemma fft_axis1_ok:
  assumes "0 < C" "has_shape2 R C a"
  shows "fft_axis1 C a = Inr (map (dft (- 1)) a)"
proof -
  have "map_err fft_backward a = Inr (map (dft (- 1)) a)"
    by (rule map_err_all) (use assms in \<open>auto simp: has_shape2_def list_all_iff fft_backward_def\<close>)
  then show ?thesis using assms by (simp add: fft_axis1_def)
qed

lemma ifft_axis1_ok:
  assumes "0 < C" "has_shape2 R C a"
  shows "ifft_axis1 C a = Inr (map (\<lambda>r. map (\<lambda>z. z / of_nat (length r)) (dft 1 r)) a)"
proof -
  have "map_err ifft_backward a = Inr (map (\<lambda>r. map (\<lambda>z. z / of_nat (length r)) (dft 1 r)) a)"
    by (rule map_err_all) (use assms in \<open>auto simp: has_shape2_def list_all_iff ifft_backward_def\<close>)
  then show ?thesis using assms by (simp add: ifft_axis1_def)
qed

lemma set_block_spec:
  assumes a: "has_shape2 R C a"
    and rs: "rs = norm_slice R r0" and re: "re = max rs (norm_slice R r1)"
    and cs: "cs = norm_slice C c0" and ce: "ce = max cs (norm_slice C c1)"
    and v: "has_shape2 (re - rs) (ce - cs) v"
  shows "\<exists>a'. set_block a r0 r1 c0 c1 v = Inr a' \<and> has_shape2 R C a' \<and>
           (\<forall>i<R. a' ! i = (if rs \<le> i \<and> i < re then take cs (a ! i) @ v ! (i - rs) @ drop ce (a ! i)
                             else a ! i))"
proof -
  have la: "length a = R" using a by (simp add: has_shape2_def)
  have rows: "\<And>r. r \<in> set a \<Longrightarrow> length r = C" using a by (auto simp: has_shape2_def list_all_iff)
  have lv: "length v = re - rs" using v by (simp add: has_shape2_def)
  have vrows: "\<And>w. w \<in> set v \<Longrightarrow> length w = ce - cs" using v by (auto simp: has_shape2_def list_all_iff)
  have bnd: "rs \<le> R" "re \<le> R" "rs \<le> re" "cs \<le> C" "ce \<le> C" "cs \<le> ce"
    unfolding rs re cs ce by (simp_all add: norm_slice_le)
  define mid where "mid = map (\<lambda>(r, w). take cs r @ w @ drop ce r) (zip (take (re - rs) (drop rs a)) v)"
  have bc: "broadcast_to (re - rs) v = Inr v" by (simp add: broadcast_to_def lv)
  have me: "map_err (\<lambda>(r, w). assign_slice r c0 c1 w) (zip (take (re - rs) (drop rs a)) v) = Inr mid"
    unfolding mid_def
  proof (rule map_err_all)
    fix x assume x: "x \<in> set (zip (take (re - rs) (drop rs a)) v)"
    obtain r w where xe: "x = (r, w)" by (cases x)
    have "r \<in> set a" using x xe by (meson in_set_dropD in_set_takeD set_zip_leftD)
    then have lr: "length r = C" by (rule rows)
    have "w \<in> set v" using x xe by (meson set_zip_rightD)
    then have lw: "length w = ce - cs" by (rule vrows)
    show "(case x of (r, w) \<Rightarrow> assign_slice r c0 c1 w) = Inr (case x of (r, w) \<Rightarrow> take cs r @ w @ drop ce r)"
      using lr lw by (simp add: xe assign_slice_def Let_def cs ce)
  qed
  define a' where "a' = take rs a @ mid @ drop re a"
  have sb: "set_block a r0 r1 c0 c1 v = Inr a'"
    using bc me by (simp add: set_block_def Let_def la rs[symmetric] re[symmetric] a'_def)
  have lmid: "length mid = re - rs" using bnd la lv by (simp add: mid_def)
  have la': "length a' = R" using bnd la lmid by (simp add: a'_def)
  have el: "a' ! i = (if rs \<le> i \<and> i < re then take cs (a ! i) @ v ! (i - rs) @ drop ce (a ! i) else a ! i)"
    if i: "i < R" for i
  proof -
    consider "i < rs" | "rs \<le> i" "i < re" | "re \<le> i" by linarith
    then show ?thesis
    proof cases
      case 1
      then show ?thesis using bnd la by (simp add: a'_def nth_append)
    next
      case 2
      have d: "i - rs < re - rs" using 2 by linarith
      have "a' ! i = mid ! (i - rs)" using 2 d bnd la lmid by (simp add: a'_def nth_append)
      also have "\<dots> = take cs (a ! i) @ v ! (i - rs) @ drop ce (a ! i)"
        using 2 d bnd la lv by (simp add: mid_def)
      finally show ?thesis using 2 by simp
    next
      case 3
      have d: "\<not> i < rs" "\<not> i - rs < re - rs" using 3 bnd by linarith+
      have "a' ! i = drop re a ! (i - rs - (re - rs))"
        using 3 d bnd la lmid by (simp add: a'_def nth_append)
      also have "\<dots> = a ! i" using 3 bnd la i by simp
      finally show ?thesis using 3 by simp
    qed
  qed
  have "has_shape2 R C a'"
  proof (rule has_shape2_I[OF la'])
    fix i assume i: "i < R"
    have ai: "length (a ! i) = C" using rows i la by simp
    show "length (a' ! i) = C"
    proof (cases "rs \<le> i \<and> i < re")
      case True
      then have "i - rs < length v" using lv by linarith
      then have "v ! (i - rs) \<in> set v" by (rule nth_mem)
      then have "length (v ! (i - rs)) = ce - cs" by (rule vrows)
      then show ?thesis using el[OF i] True ai bnd by simp
    next
      case False
      then have "a' ! i = a ! i" using el[OF i] by (simp only: if_False)
      then show ?thesis using ai by simp
    qed
  qed
  then show ?thesis using sb el by blast
qed

text \<open>The rows of the field come back from \<open>periodic_extension\<close> as they went in: the
  second store touches the rows below them only, and on each row the inverse FFT undoes
  the FFT.\<close>

lemma lower_mw: "lower ''mw'' = ''mw''" by code_simp
lemma lower_mwss: "lower ''mwss'' = ''mwss''" by code_simp

lemma periodic_extension_rows:
  assumes L: "1 \<le> L" and mo: "mo = (if sampling = ''mwss'' then 1 else 0)"
    and nt: "ntheta S L sampling = Inr (L + mo)"
    and np: "nphi_equiang S L sampling = Inr (2 * L - 1 + mo)"
    and ne: "ntheta_extension S L sampling = Inr (2 * L - 1 + mo)"
    and f: "has_shape2 (nat (L + mo)) (nat (2 * L - 1 + mo)) f"
  shows "\<exists>g. periodic_extension S f L spin sampling = Inr g \<and> take (nat (L + mo)) g = f"
proof -
  define R where "R = nat (2 * L - 1 + mo)"
  define C where "C = nat (2 * L - 1 + mo)"
  define T where "T = nat (L + mo)"
  have mo01: "mo = 0 \<or> mo = 1" using mo by simp
  have C0: "0 < C" and TR: "T \<le> R" using L mo01 by (auto simp: C_def T_def R_def)
  have lf: "length f = T" using f by (simp add: has_shape2_def T_def)
  have frow: "length (f ! i) = C" if "i < T" for i
    using has_shape2_nth[OF f] that by (simp add: T_def C_def)
  define z :: arr2 where "z = replicate R (replicate C 0)"
  have z: "zeros2 (2 * L - 1 + mo, 2 * L - 1 + mo) = Inr z"
    using L mo01 by (auto simp: zeros2_def z_def R_def C_def)
  have shz: "has_shape2 R C z" by (simp add: z_def has_shape2_def list_all_length)
  have bf: "block_of f 0 (L + mo) 0 (2 * L - 1 + mo) = f"
  proof -
    have a: "slice_of f 0 (L + mo) = f" using L mo01 lf by (auto simp: slice_of_take T_def)
    have b: "slice_of r 0 (2 * L - 1 + mo) = r" if "r \<in> set f" for r
    proof -
      have "length r = C" using f that by (auto simp: has_shape2_def list_all_iff C_def)
      then show ?thesis using L mo01 by (auto simp: slice_of_take C_def)
    qed
    show ?thesis unfolding block_of_def a using b by (simp add: map_idI)
  qed
  have s1: "norm_slice R 0 = 0" "max 0 (norm_slice R (L + mo)) = T"
    "norm_slice C 0 = 0" "max 0 (norm_slice C (2 * L - 1 + mo)) = C"
    using L mo01 TR by (auto simp: norm_slice_def T_def C_def R_def)
  have "\<exists>a'. set_block z 0 (L + mo) 0 (2 * L - 1 + mo) f = Inr a' \<and> has_shape2 R C a' \<and>
           (\<forall>i<R. a' ! i = (if 0 \<le> i \<and> i < T then take 0 (z ! i) @ f ! (i - 0) @ drop C (z ! i)
                             else z ! i))"
    by (rule set_block_spec[OF shz]) (use s1 f in \<open>simp_all add: T_def C_def\<close>)
  then obtain f1 where f1: "set_block z 0 (L + mo) 0 (2 * L - 1 + mo) f = Inr f1"
    and sh1: "has_shape2 R C f1"
    and el1: "\<And>i. i < T \<Longrightarrow> f1 ! i = f ! i"
    using TR by (auto simp: z_def)
  have f2: "fft_axis1 C f1 = Inr (map (dft (- 1)) f1)" by (rule fft_axis1_ok[OF C0 sh1])
  define f3 where "f3 = map fftshift (map (dft (- 1)) f1)"
  have sh3: "has_shape2 R C f3"
    using sh1 by (auto simp: f3_def has_shape2_def list_all_iff fftshift_def)
  have el3: "f3 ! i = fftshift (dft (- 1) (f ! i))" if "i < T" for i
    using that TR sh1 el1 by (simp add: f3_def has_shape2_def)
  define rs2 where "rs2 = norm_slice R (L + mo)"
  define re2 where "re2 = max rs2 (norm_slice R (2 * L - 1 + mo))"
  define cs2 where "cs2 = norm_slice C mo"
  define ce2 where "ce2 = max cs2 (norm_slice C (2 * L - 1 + mo))"
  have v2: "rs2 = T" "re2 - rs2 = nat (L - 1)" "ce2 - cs2 = nat (2 * L - 1)"
    using L mo01 by (auto simp: rs2_def re2_def cs2_def ce2_def norm_slice_def T_def C_def R_def)
  have src: "max (norm_slice R mo) (norm_slice R (L - 1 + mo)) - norm_slice R mo = nat (L - 1)"
    using L mo01 by (auto simp: norm_slice_def R_def)
  have shb: "has_shape2 (nat (L - 1)) (nat (2 * L - 1))
               (rev (block_of f3 mo (L - 1 + mo) mo (2 * L - 1 + mo)))"
    using block_of_shape[OF sh3, of mo "L - 1 + mo" mo "2 * L - 1 + mo"] v2(3)
    by (simp add: src cs2_def ce2_def has_shape2_def)
  have ls: "length (map (\<lambda>m. neg_one_pow (m + spin)) [- (L - 1)..L - 1]) = nat (2 * L - 1)"
    using L by simp
  obtain v where v: "mul_last (rev (block_of f3 mo (L - 1 + mo) mo (2 * L - 1 + mo)))
                       (map (\<lambda>m. neg_one_pow (m + spin)) [- (L - 1)..L - 1]) = Inr v"
    and shv: "has_shape2 (nat (L - 1)) (nat (2 * L - 1)) v"
    using mul_last_shape[OF shb ls] by blast
  have "\<exists>a'. set_block f3 (L + mo) (2 * L - 1 + mo) mo (2 * L - 1 + mo) v = Inr a' \<and> has_shape2 R C a' \<and>
           (\<forall>i<R. a' ! i = (if rs2 \<le> i \<and> i < re2 then take cs2 (f3 ! i) @ v ! (i - rs2) @ drop ce2 (f3 ! i)
                             else f3 ! i))"
    by (rule set_block_spec[OF sh3 rs2_def re2_def cs2_def ce2_def]) (simp only: v2(2,3) shv)
  then obtain f4 where f4: "set_block f3 (L + mo) (2 * L - 1 + mo) mo (2 * L - 1 + mo) v = Inr f4"
    and sh4: "has_shape2 R C f4"
    and el4: "\<And>i. i < T \<Longrightarrow> f4 ! i = f3 ! i"
    using TR v2(1) by auto
  have sh5: "has_shape2 R C (map ifftshift f4)"
    using sh4 by (auto simp: has_shape2_def list_all_iff ifftshift_def)
  define g where "g = map (\<lambda>r. map (\<lambda>z. z / of_nat (length r)) (dft 1 r)) (map ifftshift f4)"
  have g: "ifft_axis1 C (map ifftshift f4) = Inr g"
    unfolding g_def by (rule ifft_axis1_ok[OF C0 sh5])
  have pe: "periodic_extension S f L spin sampling = Inr g"
    unfolding periodic_extension_def
    by (simp only: nt np ne sum.case mo[symmetric] Let_def z bf f1 C_def[symmetric] f2
        f3_def[symmetric] v f4 g)
  have lg: "length g = R" using sh4 by (simp add: g_def has_shape2_def)
  have "take T g = f"
  proof (rule nth_equalityI)
    show "length (take T g) = length f" using lg lf TR by simp
  next
    fix i assume "i < length (take T g)"
    then have i: "i < T" by simp
    have iR: "i < length f4" using i TR sh4 by (simp add: has_shape2_def)
    have ne0: "f ! i \<noteq> []" using frow[OF i] C0 by auto
    have "take T g ! i = g ! i" using i by simp
    also have "\<dots> = map (\<lambda>z. z / of_nat (length (ifftshift (f4 ! i)))) (dft 1 (ifftshift (f4 ! i)))"
      using iR by (simp add: g_def)
    also have "ifftshift (f4 ! i) = dft (- 1) (f ! i)"
      by (simp add: el4[OF i] el3[OF i] ifftshift_fftshift)
    also have "map (\<lambda>z. z / of_nat (length (dft (- 1) (f ! i)))) (dft 1 (dft (- 1) (f ! i))) = f ! i"
      using ifft_fft_inverse[OF ne0] by simp
    finally show "take T g ! i = f ! i" .
  qed
  then show ?thesis using pe by (auto simp: T_def)
qed

text \<open>The extension at \<open>L = 1\<close> on the \<open>"mwss"\<close> grid of two rings of two samples: there is
  no row to add, and the field comes back.\<close>

lemma periodic_extension_example:
  "periodic_extension
     \<lparr>ntheta = \<lambda>L s. Inr 2, nphi_equiang = \<lambda>L s. Inr 2, ntheta_extension = \<lambda>L s. Inr 2\<rparr>
     [[1, 2], [3, 4]] 1 0 ''mwss'' = Inr [[1, 2], [3, 4]]"
  apply (simp add: periodic_extension_def zeros2_def set_block_def block_of_def slice_of_def norm_slice_def
    broadcast_to_def assign_slice_def fft_axis1_def ifft_axis1_def fft_backward_def ifft_backward_def dft_def
    fftshift_def ifftshift_def mul_last_def neg_one_pow_def Let_def numeral_2_eq_2)
  apply (simp add: complex_eq_iff)
  done

text \<open>
  Claim C5.  For every integer \<open>spin\<close>, every \<open>L \<ge> 1\<close> and both \<open>sampling = "mw"\<close> and
  \<open>sampling = "mwss"\<close>, and every complex field \<open>f\<close> of the shape \<open>(ntheta, nphi)\<close> of the
  scheme, \<open>periodic_extension(f, L, spin, sampling)\<close> returns an array and
  \<open>unextend\<close> of that array is \<open>f\<close>, in exact arithmetic.  The sample counts are those of
  the two schemes: \<open>ntheta = L\<close>, \<open>nphi = 2L - 1\<close> and \<open>ntheta_extension = 2L - 1\<close> for
  \<open>"mw"\<close>, and \<open>ntheta = L + 1\<close>, \<open>nphi = 2L\<close> and \<open>ntheta_extension = 2L\<close> for \<open>"mwss"\<close>
  (the rows \<open>unextend\<close> keeps, and the counts \<open>periodic_extension_spatial_mwss\<close> and
  \<open>mw_to_mwss_theta\<close> of the same file work with).
\<close>

theorem unextend_periodic_extension:
  assumes "1 \<le> L" and "sampling = ''mw'' \<or> sampling = ''mwss''"
    and "ntheta S L sampling = Inr (if sampling = ''mwss'' then L + 1 else L)"
    and "nphi_equiang S L sampling = Inr (if sampling = ''mwss'' then 2 * L else 2 * L - 1)"
    and "ntheta_extension S L sampling = Inr (if sampling = ''mwss'' then 2 * L else 2 * L - 1)"
    and "has_shape2 (nat (if sampling = ''mwss'' then L + 1 else L))
           (nat (if sampling = ''mwss'' then 2 * L else 2 * L - 1)) f"
  shows "\<exists>g. periodic_extension S f L spin sampling = Inr g \<and> unextend g L sampling = Inr f"
proof -
  define mo :: int where "mo = (if sampling = ''mwss'' then 1 else 0)"
  have e: "(if sampling = ''mwss'' then L + 1 else L) = L + mo"
    "(if sampling = ''mwss'' then 2 * L else 2 * L - 1) = 2 * L - 1 + mo"
    by (simp_all add: mo_def)
  obtain g where g: "periodic_extension S f L spin sampling = Inr g" and t: "take (nat (L + mo)) g = f"
    using periodic_extension_rows[OF assms(1) mo_def assms(3-6)[unfolded e]] by blast
  have "unextend g L sampling = Inr (take (nat (L + mo)) g)"
  proof (cases "sampling = ''mwss''")
    case True
    then show ?thesis using assms(1) by (simp add: unextend_def lower_mwss slice_of_take mo_def)
  next
    case False
    then have "sampling = ''mw''" using assms(2) by simp
    then show ?thesis using assms(1) by (simp add: unextend_def lower_mw slice_of_take mo_def)
  qed
  then show ?thesis using g t by simp
qed

text \<open>The theorem at \<open>L = 2\<close> on the \<open>"mw"\<close> grid, two rings of three samples extended to
  three rings.\<close>

theorem unextend_periodic_extension_witness:
  "(1::int) \<le> 2 \<and>
   (\<exists>g. periodic_extension
          \<lparr>ntheta = \<lambda>L s. Inr 2, nphi_equiang = \<lambda>L s. Inr 3, ntheta_extension = \<lambda>L s. Inr 3\<rparr>
          [[1, 2, 3], [4, 5, 6]] 2 0 ''mw'' = Inr g \<and>
        unextend g 2 ''mw'' = Inr [[1, 2, 3], [4, 5, 6]])"
  using unextend_periodic_extension[of 2 "''mw''"
      "\<lparr>ntheta = \<lambda>L s. Inr 2, nphi_equiang = \<lambda>L s. Inr 3, ntheta_extension = \<lambda>L s. Inr 3\<rparr>"
      "[[1, 2, 3], [4, 5, 6]]" 0]
  by (simp add: has_shape2_def)

end
